theory Spec2Isabelle
  imports Complex_Main "HOL-Library.Word" "HOL-Library.Log_Nat"
begin

unbundle bit_operations_syntax

section \<open>AXI Stream FIFO ramp test (helloworld.c)\<close>

text \<open>
  The program has two parts: \<open>GenerateRampWave\<close>, which fills a buffer of 32-bit words
  with a 14-bit ramp held in bits 31:18, and \<open>main\<close>, which sends the buffer to the
  AXI Stream FIFO again and again until the FIFO has no room or reports an error.
\<close>

type_synonym u32 = "32 word"

subsection \<open>Single-precision arithmetic\<close>

text \<open>
  \<open>scaleFactor\<close> is a C \<open>float\<close> and the ramp value is computed in \<open>float\<close>. The model is
  IEEE 754 binary32 with round to nearest, ties to even: 24 significant bits, exponents
  from \<open>-126\<close> to \<open>127\<close>, gradual underflow, overflow to infinity. Each operation is
  rounded once to binary32 (the C evaluation method 0, with no contraction of a product and
  a sum into a fused operation). A finite value is held as the rational it denotes; the sign
  of zero is not kept, every zero acts as \<open>+0\<close> (the function only produces non-negative
  values).
\<close>

datatype f32 = Finite rat | PlusInf | MinusInf | NaN

text \<open>\<open>ilog2 x\<close> is the exponent \<open>e\<close> with \<open>2\<^sup>e \<le> x < 2\<^sup>e\<^sup>+\<^sup>1\<close>, for \<open>x > 0\<close>.\<close>

definition ilog2 :: "rat \<Rightarrow> int" where
  "ilog2 x = (case quotient_of x of (p, q) \<Rightarrow>
     let d = bitlen p - bitlen q in if 2 powi d \<le> x then d else d - 1)"

text \<open>Rounding to the nearest integer, a tie going to the even one.\<close>

definition rne :: "rat \<Rightarrow> int" where
  "rne t = (let f = \<lfloor>t\<rfloor>; r = t - of_int f in
     if r < 1/2 then f else if 1/2 < r then f + 1 else if even f then f else f + 1)"

text \<open>
  The exponent of \<open>x\<close> in binary32, which does not go below \<open>-126\<close> (below it the
  values are subnormal), and the unit in the last place of a 24-bit significand there.
\<close>

definition expo :: "rat \<Rightarrow> int" where
  "expo x = max (ilog2 \<bar>x\<bar>) (- 126)"

definition ulp :: "rat \<Rightarrow> rat" where
  "ulp x = 2 powi (expo x - 23)"

text \<open>
  \<open>rnd x\<close> is the multiple of the unit in the last place that is nearest to \<open>x\<close>, the
  exponent being unbounded above.
\<close>

definition rnd :: "rat \<Rightarrow> rat" where
  "rnd x = (if x = 0 then 0 else of_int (rne (x / ulp x)) * ulp x)"

definition round32 :: "rat \<Rightarrow> f32" where
  "round32 x = (let r = rnd x in
     if 2 ^ 128 \<le> r then PlusInf else if r \<le> - (2 ^ 128) then MinusInf else Finite r)"

definition u32_to_f32 :: "u32 \<Rightarrow> f32" where
  "u32_to_f32 w = round32 (of_int (uint w))"

fun f32_div :: "f32 \<Rightarrow> f32 \<Rightarrow> f32" where
  "f32_div NaN _ = NaN"
| "f32_div _ NaN = NaN"
| "f32_div (Finite x) (Finite y) =
     (if y = 0 then (if x = 0 then NaN else if 0 < x then PlusInf else MinusInf)
      else round32 (x / y))"
| "f32_div (Finite x) _ = Finite 0"
| "f32_div PlusInf (Finite y) = (if 0 \<le> y then PlusInf else MinusInf)"
| "f32_div MinusInf (Finite y) = (if 0 \<le> y then MinusInf else PlusInf)"
| "f32_div _ _ = NaN"

fun f32_mul :: "f32 \<Rightarrow> f32 \<Rightarrow> f32" where
  "f32_mul NaN _ = NaN"
| "f32_mul _ NaN = NaN"
| "f32_mul (Finite x) (Finite y) = round32 (x * y)"
| "f32_mul (Finite x) PlusInf = (if x = 0 then NaN else if 0 < x then PlusInf else MinusInf)"
| "f32_mul (Finite x) MinusInf = (if x = 0 then NaN else if 0 < x then MinusInf else PlusInf)"
| "f32_mul PlusInf (Finite y) = (if y = 0 then NaN else if 0 < y then PlusInf else MinusInf)"
| "f32_mul MinusInf (Finite y) = (if y = 0 then NaN else if 0 < y then MinusInf else PlusInf)"
| "f32_mul PlusInf PlusInf = PlusInf"
| "f32_mul MinusInf MinusInf = PlusInf"
| "f32_mul _ _ = MinusInf"

fun f32_add :: "f32 \<Rightarrow> f32 \<Rightarrow> f32" where
  "f32_add NaN _ = NaN"
| "f32_add _ NaN = NaN"
| "f32_add (Finite x) (Finite y) = round32 (x + y)"
| "f32_add PlusInf MinusInf = NaN"
| "f32_add MinusInf PlusInf = NaN"
| "f32_add (Finite x) b = b"
| "f32_add a _ = a"

text \<open>
  What can go wrong in the C program: a \<open>float\<close> whose integral part does not fit the
  integer type it is converted to (C11 6.3.1.4: the behaviour is undefined), and an array
  index past the end.
\<close>

datatype fault = UndefinedConversion | OutOfBounds

text \<open>The cast \<open>(u32) x\<close>: the value is truncated towards zero.\<close>

fun f32_to_u32 :: "f32 \<Rightarrow> fault + u32" where
  "f32_to_u32 (Finite x) =
     (if - 1 < x \<and> x < 2 ^ 32 then Inr (word_of_int (if 0 \<le> x then \<lfloor>x\<rfloor> else \<lceil>x\<rceil>))
      else Inl UndefinedConversion)"
| "f32_to_u32 _ = Inl UndefinedConversion"

subsection \<open>GenerateRampWave\<close>

definition MAX_COUNT :: u32 where
  "MAX_COUNT = 0x3FFF"

text \<open>
  The \<open>for\<close> loop, from index \<open>i\<close> on. \<open>NumSamples - 1\<close> is unsigned and wraps, as in C.
  \<open>Buffer\<close> is the array the pointer refers to; a store past its end is a fault.
\<close>

function ramp_loop :: "f32 \<Rightarrow> u32 \<Rightarrow> u32 \<Rightarrow> u32 list \<Rightarrow> fault + u32 list" where
  "ramp_loop scaleFactor NumSamples i Buffer =
     (if i < NumSamples then
        (case (if i = NumSamples - 1 then Inr 0
               else (case f32_to_u32 (f32_add (f32_mul (u32_to_f32 i) scaleFactor) (Finite (1/2))) of
                       Inl e \<Rightarrow> Inl e
                     | Inr rampValue \<Rightarrow>
                         Inr (push_bit 18 (if rampValue > MAX_COUNT then MAX_COUNT else rampValue))))
         of Inl e \<Rightarrow> Inl e
          | Inr shiftedValue \<Rightarrow>
              if unat i < length Buffer
              then ramp_loop scaleFactor NumSamples (i + 1) (Buffer[unat i := shiftedValue])
              else Inl OutOfBounds)
      else Inr Buffer)"
  by pat_completeness auto
termination
proof (relation "measure (\<lambda>(scaleFactor, NumSamples, i, Buffer). unat NumSamples - unat i)")
  show "wf (measure (\<lambda>(scaleFactor :: f32, NumSamples :: u32, i :: u32, Buffer :: u32 list).
    unat NumSamples - unat i))"
    by simp
next
  fix scaleFactor :: f32 and NumSamples i :: u32 and Buffer :: "u32 list" and x :: "fault + u32"
    and shiftedValue :: u32
  assume "i < NumSamples"
  then have "unat i < unat NumSamples"
    by (simp add: word_less_nat_alt)
  moreover have "unat NumSamples < 2 ^ 32"
    using unsigned_less [of NumSamples] by simp
  ultimately have "unat i + unat (1 :: u32) < 2 ^ LENGTH(32)"
    by simp
  then have "unat (i + 1) = unat i + unat (1 :: u32)"
    by (simp only: unat_add_lem)
  then have "unat (i + 1) = Suc (unat i)"
    by simp
  with \<open>unat i < unat NumSamples\<close>
  show "((scaleFactor, NumSamples, i + 1, Buffer[unat i := shiftedValue]),
         (scaleFactor, NumSamples, i, Buffer))
        \<in> measure (\<lambda>(scaleFactor, NumSamples, i, Buffer). unat NumSamples - unat i)"
    by simp
qed

declare ramp_loop.simps [simp del]

definition GenerateRampWave :: "u32 list \<Rightarrow> u32 \<Rightarrow> fault + u32 list" where
  "GenerateRampWave Buffer NumSamples =
     (let scaleFactor = f32_div (u32_to_f32 MAX_COUNT) (u32_to_f32 (NumSamples - 2))
      in ramp_loop scaleFactor NumSamples 0 Buffer)"

subsection \<open>The FIFO driver\<close>

text \<open>
  The driver (\<open>xllfifo.h\<close>), the base address (\<open>xparameters.h\<close>), the error mask
  \<open>XLLF_INT_ERROR_MASK\<close> and \<open>usleep\<close> are not part of the sources. They are parameters
  of the model: \<open>'h\<close> is the state of the hardware, and each driver call is a function
  on it, a register read returning the value read as well. Nothing is assumed about them.
\<close>

record 'h driver =
  XLlFifo_Initialize :: "u32 \<Rightarrow> 'h \<Rightarrow> 'h"
  XLlFifo_Reset :: "'h \<Rightarrow> 'h"
  XLlFifo_IntClear :: "u32 \<Rightarrow> 'h \<Rightarrow> 'h"
  XLlFifo_Status :: "'h \<Rightarrow> u32 \<times> 'h"
  XLlFifo_iTxVacancy :: "'h \<Rightarrow> u32 \<times> 'h"
  XLlFifo_TxPutWord :: "u32 \<Rightarrow> 'h \<Rightarrow> 'h"
  XLlFifo_TxSetLen :: "u32 \<Rightarrow> 'h \<Rightarrow> 'h"
  usleep :: "nat \<Rightarrow> 'h \<Rightarrow> 'h"
  FIFO_BASE_ADDR :: u32
  XLLF_INT_ERROR_MASK :: u32

text \<open>
  The calls the program makes, in the order it makes them. A \<open>xil_printf\<close> is recorded
  by the message it prints, with the values of its arguments: the needed and the available
  word counts (\<open>%d\<close>, both \<open>int\<close>), and the status (\<open>%x\<close>, the raw bits).
\<close>

datatype message =
    Banner
  | GeneratingPattern
  | NotEnoughSpace int int
  | TransmissionError u32

datatype call =
    Initialize u32
  | Reset
  | IntClear u32
  | Usleep nat
  | Status
  | iTxVacancy
  | TxPutWord u32
  | TxSetLen u32
  | Xil_printf message

datatype status = XST_SUCCESS | XST_FAILURE

text \<open>
  The state of the program: the global array \<open>TxBuffer\<close>, the hardware, and the calls
  made so far.
\<close>

record 'h state =
  TxBuffer :: "u32 list"
  hw :: "'h"
  calls :: "call list"

definition NUM_SAMPLES :: nat where
  "NUM_SAMPLES = 256"

definition call_Initialize :: "'h driver \<Rightarrow> u32 \<Rightarrow> 'h state \<Rightarrow> 'h state" where
  "call_Initialize d a st =
     st\<lparr>hw := XLlFifo_Initialize d a (hw st), calls := calls st @ [Initialize a]\<rparr>"

definition call_Reset :: "'h driver \<Rightarrow> 'h state \<Rightarrow> 'h state" where
  "call_Reset d st = st\<lparr>hw := XLlFifo_Reset d (hw st), calls := calls st @ [Reset]\<rparr>"

definition call_IntClear :: "'h driver \<Rightarrow> u32 \<Rightarrow> 'h state \<Rightarrow> 'h state" where
  "call_IntClear d m st =
     st\<lparr>hw := XLlFifo_IntClear d m (hw st), calls := calls st @ [IntClear m]\<rparr>"

definition call_usleep :: "'h driver \<Rightarrow> nat \<Rightarrow> 'h state \<Rightarrow> 'h state" where
  "call_usleep d n st = st\<lparr>hw := usleep d n (hw st), calls := calls st @ [Usleep n]\<rparr>"

definition call_Status :: "'h driver \<Rightarrow> 'h state \<Rightarrow> u32 \<times> 'h state" where
  "call_Status d st =
     (case XLlFifo_Status d (hw st) of
        (v, h) \<Rightarrow> (v, st\<lparr>hw := h, calls := calls st @ [Status]\<rparr>))"

definition call_iTxVacancy :: "'h driver \<Rightarrow> 'h state \<Rightarrow> u32 \<times> 'h state" where
  "call_iTxVacancy d st =
     (case XLlFifo_iTxVacancy d (hw st) of
        (v, h) \<Rightarrow> (v, st\<lparr>hw := h, calls := calls st @ [iTxVacancy]\<rparr>))"

definition call_TxPutWord :: "'h driver \<Rightarrow> u32 \<Rightarrow> 'h state \<Rightarrow> 'h state" where
  "call_TxPutWord d w st =
     st\<lparr>hw := XLlFifo_TxPutWord d w (hw st), calls := calls st @ [TxPutWord w]\<rparr>"

definition call_TxSetLen :: "'h driver \<Rightarrow> u32 \<Rightarrow> 'h state \<Rightarrow> 'h state" where
  "call_TxSetLen d n st =
     st\<lparr>hw := XLlFifo_TxSetLen d n (hw st), calls := calls st @ [TxSetLen n]\<rparr>"

definition xil_printf :: "message \<Rightarrow> 'h state \<Rightarrow> 'h state" where
  "xil_printf m st = st\<lparr>calls := calls st @ [Xil_printf m]\<rparr>"

subsection \<open>main\<close>

text \<open>
  The inner loop \<open>for (i = 0; i < NUM_SAMPLES; i++) XLlFifo_TxPutWord(.., TxBuffer[i])\<close>,
  from index \<open>i\<close> on.
\<close>

function tx_loop :: "'h driver \<Rightarrow> u32 \<Rightarrow> 'h state \<Rightarrow> fault + 'h state" where
  "tx_loop d i st =
     (if i < of_nat NUM_SAMPLES then
        (if unat i < length (TxBuffer st)
         then tx_loop d (i + 1) (call_TxPutWord d (TxBuffer st ! unat i) st)
         else Inl OutOfBounds)
      else Inr st)"
  by pat_completeness auto
termination
proof (relation "measure (\<lambda>(d, i, st). NUM_SAMPLES - unat i)")
  show "wf (measure (\<lambda>(d :: 'h driver, i :: u32, st :: 'h state). NUM_SAMPLES - unat i))"
    by simp
next
  fix d :: "'h driver" and i :: u32 and st :: "'h state"
  assume "i < of_nat NUM_SAMPLES"
  then have "unat i < NUM_SAMPLES"
    by (simp add: word_less_nat_alt NUM_SAMPLES_def)
  then have "unat i + unat (1 :: u32) < 2 ^ LENGTH(32)"
    by (simp add: NUM_SAMPLES_def)
  then have "unat (i + 1) = unat i + unat (1 :: u32)"
    by (simp only: unat_add_lem)
  then have "unat (i + 1) = Suc (unat i)"
    by simp
  with \<open>unat i < NUM_SAMPLES\<close>
  show "((d, i + 1, call_TxPutWord d (TxBuffer st ! unat i) st), (d, i, st))
        \<in> measure (\<lambda>(d, i, st). NUM_SAMPLES - unat i)"
    by simp
qed

declare tx_loop.simps [simp del]

text \<open>
  \<open>TxFrameLength = NUM_SAMPLES * 4\<close>, the length of the frame in bytes, is set once
  before the loop.
\<close>

definition TxFrameLength :: u32 where
  "TxFrameLength = of_nat (NUM_SAMPLES * 4)"

text \<open>
  One pass through the body of \<open>while(1)\<close>. \<open>Inl\<close> is the end of the program: a fault, or
  the \<open>return\<close> with its value; \<open>Inr\<close> is the state with which the loop goes round again.
  \<open>Status\<close> is an \<open>int\<close>: the vacancy register is compared as a signed value, and the
  status is tested bitwise against the mask.
\<close>

definition iteration ::
  "'h driver \<Rightarrow> 'h state \<Rightarrow> (fault + status \<times> 'h state) + 'h state" where
  "iteration d st =
     (case call_iTxVacancy d st of (vacancy, st1) \<Rightarrow>
        if sint vacancy < int NUM_SAMPLES then
          Inl (Inr (XST_FAILURE,
            xil_printf (NotEnoughSpace (int NUM_SAMPLES) (sint vacancy)) st1))
        else
          (case tx_loop d 0 st1 of
             Inl f \<Rightarrow> Inl (Inl f)
           | Inr st2 \<Rightarrow>
               (case call_Status d (call_TxSetLen d TxFrameLength st2) of (s, st3) \<Rightarrow>
                  if s AND XLLF_INT_ERROR_MASK d \<noteq> 0 then
                    Inl (Inr (XST_FAILURE,
                      call_IntClear d (XLLF_INT_ERROR_MASK d)
                        (xil_printf (TransmissionError s) st3)))
                  else Inr st3)))"

text \<open>
  \<open>while(1)\<close> has no \<open>break\<close>: it ends by one of the two \<open>return\<close>s or not at all, and
  then the value is \<open>None\<close>. The statements after the loop cannot be reached.
\<close>

partial_function (option) main_loop ::
  "'h driver \<Rightarrow> 'h state \<Rightarrow> (fault + status \<times> 'h state) option" where
  "main_loop d st =
     (case iteration d st of
        Inl r \<Rightarrow> Some r
      | Inr st' \<Rightarrow> main_loop d st')"

text \<open>The program up to the loop: the FIFO is initialised and reset, the ramp is generated.\<close>

definition startup :: "'h driver \<Rightarrow> 'h \<Rightarrow> 'h state" where
  "startup d h =
     xil_printf GeneratingPattern
       (snd (call_Status d
          (call_usleep d 1000
            (call_IntClear d 0xffffffff
              (call_Reset d
                (call_Initialize d (FIFO_BASE_ADDR d)
                  (xil_printf Banner
                    \<lparr>TxBuffer = replicate NUM_SAMPLES 0, hw = h, calls = []\<rparr>)))))))"

definition main :: "'h driver \<Rightarrow> 'h \<Rightarrow> (fault + status \<times> 'h state) option" where
  "main d h =
     (let st = startup d h in
      case GenerateRampWave (TxBuffer st) (of_nat NUM_SAMPLES) of
        Inl f \<Rightarrow> Some (Inl f)
      | Inr Buffer \<Rightarrow>
          main_loop d (st\<lparr>TxBuffer := Buffer\<rparr>))"

subsection \<open>The iterations of the loop\<close>

text \<open>
  \<open>state_at d h n\<close> is the state with which \<open>main\<close> enters pass \<open>n\<close> of \<open>while(1)\<close>
  (counting from 0), when the program gets that far.
\<close>

fun state_at :: "'h driver \<Rightarrow> 'h \<Rightarrow> nat \<Rightarrow> 'h state option" where
  "state_at d h 0 =
     (let st = startup d h in
      case GenerateRampWave (TxBuffer st) (of_nat NUM_SAMPLES) of
        Inl f \<Rightarrow> None
      | Inr Buffer \<Rightarrow> Some (st\<lparr>TxBuffer := Buffer\<rparr>))"
| "state_at d h (Suc n) =
     (case state_at d h n of
        None \<Rightarrow> None
      | Some st \<Rightarrow>
          (case iteration d st of
             Inl r \<Rightarrow> None
           | Inr st' \<Rightarrow> Some st'))"

text \<open>
  What sending the words \<open>ws\<close> does to the state: one \<open>XLlFifo_TxPutWord\<close> for each
  word, in the order of the list.
\<close>

definition sent :: "'h driver \<Rightarrow> u32 list \<Rightarrow> 'h state \<Rightarrow> 'h state" where
  "sent d ws st =
     st\<lparr>hw := fold (XLlFifo_TxPutWord d) ws (hw st), calls := calls st @ map TxPutWord ws\<rparr>"

subsection \<open>The ramp in closed form\<close>

text \<open>The value of \<open>shiftedValue\<close> in the pass of the \<open>for\<close> loop for index \<open>i\<close>.\<close>

definition shiftedValue_at :: "f32 \<Rightarrow> u32 \<Rightarrow> u32 \<Rightarrow> fault + u32" where
  "shiftedValue_at scaleFactor NumSamples i =
     (if i = NumSamples - 1 then Inr 0
      else (case f32_to_u32 (f32_add (f32_mul (u32_to_f32 i) scaleFactor) (Finite (1/2))) of
              Inl e \<Rightarrow> Inl e
            | Inr rampValue \<Rightarrow>
                Inr (push_bit 18 (if rampValue > MAX_COUNT then MAX_COUNT else rampValue))))"

text \<open>The word stored at index \<open>j\<close>, whatever the scale, when the pass has no fault.\<close>

definition stored :: "f32 \<Rightarrow> u32 \<Rightarrow> nat \<Rightarrow> u32" where
  "stored scaleFactor NumSamples j =
     (case shiftedValue_at scaleFactor NumSamples (of_nat j) of Inr v \<Rightarrow> v | Inl e \<Rightarrow> 0)"

text \<open>
  The values of \<open>scaleFactor\<close> and of \<open>i * scaleFactor + 0.5f\<close> as rationals, when all the
  intermediate results are finite, and the word that \<open>GenerateRampWave\<close> then stores at
  index \<open>j\<close>.
\<close>

definition scale_value :: "u32 \<Rightarrow> rat" where
  "scale_value NumSamples = rnd (16383 / rnd (of_int (uint (NumSamples - 2))))"

definition ramp_value :: "u32 \<Rightarrow> u32 \<Rightarrow> rat" where
  "ramp_value NumSamples i = rnd (rnd (rnd (of_int (uint i)) * scale_value NumSamples) + 1/2)"

definition ramp_word :: "u32 \<Rightarrow> nat \<Rightarrow> u32" where
  "ramp_word NumSamples j =
     (if j = unat NumSamples - 1 then 0
      else push_bit 18 (min (word_of_int \<lfloor>ramp_value NumSamples (of_nat j)\<rfloor>) MAX_COUNT))"

definition ramp :: "u32 \<Rightarrow> u32 list" where
  "ramp NumSamples = map (ramp_word NumSamples) [0..<unat NumSamples]"

text \<open>The 14-bit value behind the word at index \<open>j\<close>, before the shift.\<close>

definition amplitude_word :: "u32 \<Rightarrow> nat \<Rightarrow> u32" where
  "amplitude_word N j = min (word_of_int \<lfloor>ramp_value N (of_nat j)\<rfloor>) MAX_COUNT"

text \<open>
  The amplitude as the specification gives it: \<open>round(i * scale)\<close> clamped to
  \<open>[0, MAX_COUNT]\<close>, with \<open>round(x) = floor(x + 0.5)\<close> and
  \<open>scale = MAX_COUNT / (N - 2)\<close>; once in single precision, as the specification has the
  scale, and once in exact arithmetic.
\<close>

definition spec_amplitude :: "u32 \<Rightarrow> u32 \<Rightarrow> fault + u32" where
  "spec_amplitude N i =
     (case f32_to_u32
        (f32_add (f32_mul (u32_to_f32 i) (f32_div (u32_to_f32 MAX_COUNT) (u32_to_f32 (N - 2))))
           (Finite (1/2)))
      of Inl e \<Rightarrow> Inl e
       | Inr a \<Rightarrow> Inr (max 0 (min a MAX_COUNT)))"

definition exact_amplitude :: "nat \<Rightarrow> nat \<Rightarrow> int" where
  "exact_amplitude N i =
     max 0 (min \<lfloor>(of_nat i :: rat) * (16383 / (of_nat N - 2)) + 1/2\<rfloor> 16383)"

text \<open>The state with which \<open>main\<close> enters the loop for the first time.\<close>

definition loop_entry :: "'h driver \<Rightarrow> 'h \<Rightarrow> 'h state" where
  "loop_entry d h = (startup d h)\<lparr>TxBuffer := ramp (of_nat NUM_SAMPLES)\<rparr>"

subsection \<open>A scripted FIFO\<close>

text \<open>
  A driver for trying the program out: the hardware state is the list of values the
  vacancy register will give and the list of values the status register will give, one
  for each read (\<open>0\<close> when the list is used up); the other calls leave it alone.
\<close>

definition mock :: "u32 \<Rightarrow> (u32 list \<times> u32 list) driver" where
  "mock error_mask =
     \<lparr>XLlFifo_Initialize = (\<lambda>a h. h),
      XLlFifo_Reset = (\<lambda>h. h),
      XLlFifo_IntClear = (\<lambda>m h. h),
      XLlFifo_Status = (\<lambda>(vs, ss). (case ss of [] \<Rightarrow> 0 | s # _ \<Rightarrow> s, (vs, tl ss))),
      XLlFifo_iTxVacancy = (\<lambda>(vs, ss). (case vs of [] \<Rightarrow> 0 | v # _ \<Rightarrow> v, (tl vs, ss))),
      XLlFifo_TxPutWord = (\<lambda>w h. h),
      XLlFifo_TxSetLen = (\<lambda>n h. h),
      usleep = (\<lambda>n h. h),
      FIFO_BASE_ADDR = 0,
      XLLF_INT_ERROR_MASK = error_mask\<rparr>"

text \<open>A FIFO that always has room for 512 words and never reports an error.\<close>

definition steady :: "unit driver" where
  "steady =
     \<lparr>XLlFifo_Initialize = (\<lambda>a h. h),
      XLlFifo_Reset = (\<lambda>h. h),
      XLlFifo_IntClear = (\<lambda>m h. h),
      XLlFifo_Status = (\<lambda>h. (0, h)),
      XLlFifo_iTxVacancy = (\<lambda>h. (512, h)),
      XLlFifo_TxPutWord = (\<lambda>w h. h),
      XLlFifo_TxSetLen = (\<lambda>n h. h),
      usleep = (\<lambda>n h. h),
      FIFO_BASE_ADDR = 0,
      XLLF_INT_ERROR_MASK = 0xF0200000\<rparr>"

section \<open>Rounding\<close>

lemma rne_of_int: "rne (of_int k) = k"
  by (simp add: rne_def)

lemma rne_bounds: "\<lfloor>t\<rfloor> \<le> rne t \<and> rne t \<le> \<lfloor>t\<rfloor> + 1"
  by (simp add: rne_def Let_def)

lemma rne_mono:
  assumes "s \<le> t"
  shows "rne s \<le> rne t"
proof (cases "\<lfloor>s\<rfloor> = \<lfloor>t\<rfloor>")
  case True
  with assms have "s - of_int \<lfloor>s\<rfloor> \<le> t - of_int \<lfloor>t\<rfloor>"
    by simp
  with True show ?thesis
    by (auto simp: rne_def Let_def)
next
  case False
  with assms have "\<lfloor>s\<rfloor> < \<lfloor>t\<rfloor>"
    using floor_mono [of s t] by linarith
  then have "rne s \<le> \<lfloor>t\<rfloor>"
    using rne_bounds [of s] by linarith
  then show ?thesis
    using rne_bounds [of t] by linarith
qed

lemma rne_le_double:
  assumes "0 \<le> t"
  shows "of_int (rne t) \<le> 2 * t"
proof (cases "t < 1/2")
  case True
  with assms have "\<lfloor>t\<rfloor> = 0"
    by (simp add: floor_eq_iff)
  with True show ?thesis
    using assms by (simp add: rne_def)
next
  case False
  have "of_int (rne t) \<le> t + 1/2"
  proof (cases "t - of_int \<lfloor>t\<rfloor> < 1/2")
    case True
    then have "rne t = \<lfloor>t\<rfloor>" by (simp add: rne_def)
    moreover have "of_int \<lfloor>t\<rfloor> \<le> t" by simp
    ultimately show ?thesis by linarith
  next
    case False
    have "of_int (rne t) \<le> (of_int (\<lfloor>t\<rfloor> + 1) :: rat)"
      using rne_bounds [of t] by (simp only: of_int_le_iff)
    with False show ?thesis by simp
  qed
  with False show ?thesis
    by linarith
qed

lemma ilog2_bounds:
  assumes "0 < x"
  shows "2 powi (ilog2 x) \<le> x" and "x < 2 powi (ilog2 x + 1)"
proof -
  obtain p q where pq: "quotient_of x = (p, q)"
    by (cases "quotient_of x")
  then have q: "0 < q" and x: "x = of_int p / of_int q"
    by (simp_all add: quotient_of_denom_pos quotient_of_div)
  with assms have p: "0 < p"
    by (simp add: zero_less_divide_iff)
  define d where "d = bitlen p - bitlen q"
  have bp: "1 \<le> bitlen p" and bq: "1 \<le> bitlen q"
    using p q by (simp_all add: bitlen_alt_def)
  have bl: "(2::rat) powi (bitlen k - 1) \<le> of_int k \<and> of_int k < (2::rat) powi (bitlen k)"
    if "0 < k" for k
  proof -
    from that have b: "1 \<le> bitlen k" by (simp add: bitlen_alt_def)
    have "(2::int) ^ nat (bitlen k - 1) \<le> k" and "k < 2 ^ nat (bitlen k)"
      using bitlen_bounds [OF that] by simp_all
    then have "(of_int (2 ^ nat (bitlen k - 1)) :: rat) \<le> of_int k"
      and "(of_int k :: rat) < of_int (2 ^ nat (bitlen k))"
      by (simp_all only: of_int_le_iff of_int_less_iff)
    with b show ?thesis
      by (simp add: power_int_def)
  qed
  have p1: "(2::rat) powi (bitlen p - 1) \<le> of_int p" and p2: "of_int p < (2::rat) powi (bitlen p)"
   and q1: "(2::rat) powi (bitlen q - 1) \<le> of_int q" and q2: "of_int q < (2::rat) powi (bitlen q)"
    using bl [OF p] bl [OF q] by simp_all
  have qpos: "(0::rat) < of_int q" using q by simp
  have "2 powi (d - 1) * of_int q \<le> (2::rat) powi (d - 1) * 2 powi (bitlen q)"
    using q2 by simp
  also have "\<dots> = 2 powi (bitlen p - 1)"
    by (simp add: d_def power_int_add [symmetric])
  also have "\<dots> \<le> of_int p" by (rule p1)
  finally have lo: "2 powi (d - 1) \<le> x"
    using qpos by (simp add: x pos_le_divide_eq)
  have "of_int p < (2::rat) powi (bitlen p)" by (rule p2)
  also have "\<dots> = 2 powi (d + 1) * 2 powi (bitlen q - 1)"
    by (simp add: d_def power_int_add [symmetric])
  also have "\<dots> \<le> 2 powi (d + 1) * of_int q"
    using q1 by simp
  finally have hi: "x < 2 powi (d + 1)"
    using qpos by (simp add: x pos_divide_less_eq)
  have il: "ilog2 x = (if 2 powi d \<le> x then d else d - 1)"
    by (simp add: ilog2_def pq d_def Let_def)
  show "2 powi (ilog2 x) \<le> x"
    using lo by (simp add: il)
  show "x < 2 powi (ilog2 x + 1)"
    using hi by (auto simp add: il)
qed


lemma ilog2_mono:
  assumes "0 < x" and "x \<le> y"
  shows "ilog2 x \<le> ilog2 y"
proof (rule ccontr)
  assume "\<not> ilog2 x \<le> ilog2 y"
  then have "ilog2 y + 1 \<le> ilog2 x" by simp
  then have "(2::rat) powi (ilog2 y + 1) \<le> 2 powi (ilog2 x)"
    by (rule power_int_increasing) simp
  moreover have "y < 2 powi (ilog2 y + 1)"
    using assms by (intro ilog2_bounds) simp
  moreover have "2 powi (ilog2 x) \<le> x"
    using assms by (intro ilog2_bounds)
  ultimately show False using assms by linarith
qed

lemma ulp_pos: "0 < ulp x"
  by (simp add: ulp_def)

lemma rnd_nonneg:
  assumes "0 \<le> x"
  shows "0 \<le> rnd x"
proof -
  have "0 \<le> x / ulp x"
    using assms ulp_pos [of x] by simp
  then have "rne 0 \<le> rne (x / ulp x)"
    by (rule rne_mono)
  then have "0 \<le> rne (x / ulp x)"
    using rne_of_int [of 0] by simp
  then show ?thesis
    using ulp_pos [of x] by (simp add: rnd_def)
qed

lemma rnd_le_double:
  assumes "0 \<le> x"
  shows "rnd x \<le> 2 * x"
proof -
  have "0 \<le> x / ulp x"
    using assms ulp_pos [of x] by simp
  then have "of_int (rne (x / ulp x)) \<le> 2 * (x / ulp x)"
    by (rule rne_le_double)
  then have "of_int (rne (x / ulp x)) * ulp x \<le> 2 * (x / ulp x) * ulp x"
    using ulp_pos [of x] by (simp only: mult_le_cancel_right_pos)
  then show ?thesis
    using ulp_pos [of x] assms by (simp add: rnd_def)
qed

lemma ulp_scale: "2 ^ 24 * ulp x = 2 powi (expo x + 1)" "2 ^ 23 * ulp x = 2 powi (expo x)"
proof -
  have "(2::rat) powi (24 + (expo x - 23)) = 2 powi 24 * 2 powi (expo x - 23)"
    by (rule power_int_add) simp
  moreover have "24 + (expo x - 23) = expo x + 1" by simp
  ultimately show "2 ^ 24 * ulp x = 2 powi (expo x + 1)"
    by (simp add: ulp_def)
  have "(2::rat) powi (23 + (expo x - 23)) = 2 powi 23 * 2 powi (expo x - 23)"
    by (rule power_int_add) simp
  then show "2 ^ 23 * ulp x = 2 powi (expo x)"
    by (simp add: ulp_def)
qed

lemma rnd_upper:
  assumes "0 < x"
  shows "rnd x \<le> 2 powi (expo x + 1)"
proof -
  have "x < 2 powi (ilog2 x + 1)"
    using assms by (rule ilog2_bounds)
  also have "\<dots> \<le> 2 powi (expo x + 1)"
    using assms by (intro power_int_increasing) (simp_all add: expo_def)
  also have "\<dots> = 2 ^ 24 * ulp x"
    by (simp only: ulp_scale)
  finally have "x / ulp x \<le> of_int (2 ^ 24)"
    using ulp_pos [of x] by (simp add: pos_divide_le_eq)
  then have "rne (x / ulp x) \<le> rne (of_int (2 ^ 24))"
    by (rule rne_mono)
  then have "rne (x / ulp x) \<le> 2 ^ 24"
    by (simp only: rne_of_int)
  then have "(of_int (rne (x / ulp x)) :: rat) \<le> of_int (2 ^ 24)"
    by (simp only: of_int_le_iff)
  then have "of_int (rne (x / ulp x)) * ulp x \<le> 2 ^ 24 * ulp x"
    using ulp_pos [of x] by simp
  also have "\<dots> = 2 powi (expo x + 1)"
    by (simp only: ulp_scale)
  finally show ?thesis
    using assms by (simp add: rnd_def)
qed

lemma rnd_lower:
  assumes "0 < x" and "expo x = ilog2 x"
  shows "2 powi (expo x) \<le> rnd x"
proof -
  have "2 powi (expo x) = 2 ^ 23 * ulp x"
    by (simp only: ulp_scale)
  moreover have "2 powi (expo x) \<le> x"
    using assms ilog2_bounds(1) [of x] by simp
  ultimately have "of_int (2 ^ 23) \<le> x / ulp x"
    using ulp_pos [of x] by (simp add: pos_le_divide_eq)
  then have "rne (of_int (2 ^ 23)) \<le> rne (x / ulp x)"
    by (rule rne_mono)
  then have "2 ^ 23 \<le> rne (x / ulp x)"
    by (simp only: rne_of_int)
  then have "(of_int (2 ^ 23) :: rat) \<le> of_int (rne (x / ulp x))"
    by (simp only: of_int_le_iff)
  then have "2 ^ 23 * ulp x \<le> of_int (rne (x / ulp x)) * ulp x"
    using ulp_pos [of x] by simp
  then show ?thesis
    using assms \<open>2 powi (expo x) = 2 ^ 23 * ulp x\<close> by (simp add: rnd_def)
qed

lemma rnd_mono:
  assumes "0 \<le> x" and "x \<le> y"
  shows "rnd x \<le> rnd y"
proof (cases "x = 0")
  case True
  then show ?thesis
    using assms rnd_nonneg [of y] by (simp add: rnd_def)
next
  case False
  with assms have x: "0 < x" and y: "0 < y" by simp_all
  have le: "expo x \<le> expo y"
    using ilog2_mono [OF x assms(2)] x y by (simp add: expo_def)
  show ?thesis
  proof (cases "expo x = expo y")
    case True
    then have u: "ulp x = ulp y" by (simp add: ulp_def)
    have "x / ulp y \<le> y / ulp y"
      using assms ulp_pos [of y] by (simp add: divide_right_mono)
    then have "rne (x / ulp y) \<le> rne (y / ulp y)"
      by (rule rne_mono)
    then have "(of_int (rne (x / ulp y)) :: rat) \<le> of_int (rne (y / ulp y))"
      by (simp only: of_int_le_iff)
    then show ?thesis
      using x y u ulp_pos [of y] by (simp add: rnd_def)
  next
    case False
    with le have lt: "expo x + 1 \<le> expo y" by simp
    then have "expo y = ilog2 y"
      using y by (simp add: expo_def max_def split: if_splits)
    then have "2 powi (expo y) \<le> rnd y"
      using y by (intro rnd_lower)
    moreover have "(2::rat) powi (expo x + 1) \<le> 2 powi (expo y)"
      using lt by (rule power_int_increasing) simp
    moreover have "rnd x \<le> 2 powi (expo x + 1)"
      using x by (rule rnd_upper)
    ultimately show ?thesis by linarith
  qed
qed

lemma rnd_values:
  "rnd 1 = 1" "rnd 16383 = 16383" "rnd 32766 = 32766" "rnd (65533 / 2) = 65533 / 2"
  "rnd 4294967296 = 4294967296"
  by code_simp+

section \<open>The ramp values are finite and grow with the index\<close>

lemma round32_finite:
  assumes "0 \<le> x" and "x \<le> 4294967296"
  shows "round32 x = Finite (rnd x)" and "0 \<le> rnd x" and "rnd x \<le> 4294967296"
proof -
  show 0: "0 \<le> rnd x"
    using assms(1) by (rule rnd_nonneg)
  have "rnd x \<le> rnd 4294967296"
    using assms by (rule rnd_mono)
  then show 1: "rnd x \<le> 4294967296"
    by (simp only: rnd_values)
  show "round32 x = Finite (rnd x)"
    using 0 1 by (simp add: round32_def Let_def)
qed

lemma uint_u32_bounds: "0 \<le> (of_int (uint (w :: u32)) :: rat)" "(of_int (uint (w :: u32)) :: rat) \<le> 4294967296"
proof -
  have "0 \<le> uint w" by simp
  then show "0 \<le> (of_int (uint w) :: rat)" by (simp only: of_int_0_le_iff)
  have "uint w < 2 ^ 32"
    using uint_bounded [of w] by simp
  then have "uint w \<le> 4294967296" by simp
  then have "(of_int (uint w) :: rat) \<le> of_int 4294967296"
    by (simp only: of_int_le_iff)
  then show "(of_int (uint w) :: rat) \<le> 4294967296" by simp
qed

lemma u32_to_f32_finite: "u32_to_f32 w = Finite (rnd (of_int (uint w)))"
  unfolding u32_to_f32_def by (rule round32_finite) (rule uint_u32_bounds)+

lemma rnd_u32_le:
  assumes "v \<le> (w :: u32)"
  shows "rnd (of_int (uint v)) \<le> rnd (of_int (uint w))"
proof -
  from assms have "uint v \<le> uint w" by (simp add: word_le_def)
  then have "(of_int (uint v) :: rat) \<le> of_int (uint w)" by (simp only: of_int_le_iff)
  with uint_u32_bounds(1) show ?thesis by (rule rnd_mono)
qed

lemma divisor_ge_1:
  assumes "3 \<le> (N :: u32)"
  shows "1 \<le> rnd (of_int (uint (N - 2)))"
proof -
  have "2 \<le> N" using assms by (simp add: word_le_nat_alt)
  then have "uint (N - 2) = uint N - 2"
    by (simp add: uint_minus_simple_alt)
  moreover have "3 \<le> uint N" using assms by (simp add: word_le_def)
  ultimately have "1 \<le> uint (N - 2)" by simp
  then have "(of_int 1 :: rat) \<le> of_int (uint (N - 2))" by (simp only: of_int_le_iff)
  then have "rnd 1 \<le> rnd (of_int (uint (N - 2)))"
    by (intro rnd_mono) simp_all
  then show ?thesis by (simp only: rnd_values)
qed

lemma scale_value_bounds:
  assumes "3 \<le> (N :: u32)"
  shows "0 \<le> scale_value N" and "scale_value N \<le> 16383"
    and "rnd (of_int (uint (N - 2))) * scale_value N \<le> 32766"
proof -
  define D where "D = rnd (of_int (uint (N - 2)))"
  have D: "1 \<le> D" unfolding D_def using assms by (rule divisor_ge_1)
  then have q: "0 \<le> 16383 / D" "16383 / D \<le> 16383"
    by (simp_all add: divide_le_eq)
  show "0 \<le> scale_value N"
    unfolding scale_value_def D_def [symmetric] using q(1) by (rule rnd_nonneg)
  have "rnd (16383 / D) \<le> rnd 16383"
    using q by (rule rnd_mono)
  then show "scale_value N \<le> 16383"
    unfolding scale_value_def D_def [symmetric] by (simp only: rnd_values)
  have "rnd (16383 / D) \<le> 2 * (16383 / D)"
    using q(1) by (rule rnd_le_double)
  then have "D * rnd (16383 / D) \<le> D * (2 * (16383 / D))"
    using D by (simp only: mult_le_cancel_left_pos) 
  also have "\<dots> = 32766" using D by simp
  finally show "rnd (of_int (uint (N - 2))) * scale_value N \<le> 32766"
    unfolding scale_value_def D_def [symmetric] .
qed

lemma scaleFactor_finite:
  assumes "3 \<le> (N :: u32)"
  shows "f32_div (u32_to_f32 MAX_COUNT) (u32_to_f32 (N - 2)) = Finite (scale_value N)"
proof -
  define D where "D = rnd (of_int (uint (N - 2)))"
  have D: "1 \<le> D" unfolding D_def using assms by (rule divisor_ge_1)
  then have q: "0 \<le> 16383 / D" "16383 / D \<le> 4294967296"
    by (simp_all add: divide_le_eq)
  have "u32_to_f32 MAX_COUNT = Finite 16383"
    by (simp add: u32_to_f32_finite MAX_COUNT_def rnd_values)
  moreover have "u32_to_f32 (N - 2) = Finite D"
    by (simp add: u32_to_f32_finite D_def)
  moreover have "round32 (16383 / D) = Finite (rnd (16383 / D))"
    using q by (rule round32_finite)
  ultimately show ?thesis
    using D by (simp add: scale_value_def D_def)
qed

lemma ramp_value_finite:
  assumes "3 \<le> (N :: u32)" and "i \<le> N - 2"
  shows "f32_add (f32_mul (u32_to_f32 i) (Finite (scale_value N))) (Finite (1/2)) =
           Finite (ramp_value N i)"
    and "0 \<le> ramp_value N i" and "ramp_value N i \<le> 65533 / 2"
proof -
  define a where "a = rnd (of_int (uint i))"
  define D where "D = rnd (of_int (uint (N - 2)))"
  define S where "S = scale_value N"
  have a0: "0 \<le> a" unfolding a_def by (rule rnd_nonneg) (rule uint_u32_bounds)
  have aD: "a \<le> D" unfolding a_def D_def using assms(2) by (rule rnd_u32_le)
  have S0: "0 \<le> S" and DS: "D * S \<le> 32766"
    unfolding S_def D_def using scale_value_bounds [OF assms(1)] by simp_all
  have p0: "0 \<le> a * S" using a0 S0 by simp
  have "a * S \<le> D * S" using aD S0 by (rule mult_right_mono)
  with DS have p1: "a * S \<le> 32766" by simp
  have P0: "0 \<le> rnd (a * S)" using p0 by (rule rnd_nonneg)
  have "rnd (a * S) \<le> rnd 32766" using p0 p1 by (rule rnd_mono)
  then have P1: "rnd (a * S) \<le> 32766" by (simp only: rnd_values)
  have m: "round32 (a * S) = Finite (rnd (a * S))"
    using p0 p1 by (intro round32_finite) simp_all
  have s0: "0 \<le> rnd (a * S) + 1/2" using P0 by simp
  have s1: "rnd (a * S) + 1/2 \<le> 65533 / 2" using P1 by simp
  have r: "round32 (rnd (a * S) + 1/2) = Finite (rnd (rnd (a * S) + 1/2))"
    using s0 s1 by (intro round32_finite) simp_all
  show "f32_add (f32_mul (u32_to_f32 i) (Finite (scale_value N))) (Finite (1/2)) =
           Finite (ramp_value N i)"
    using m r by (simp add: u32_to_f32_finite ramp_value_def a_def S_def)
  show "0 \<le> ramp_value N i"
    unfolding ramp_value_def a_def [symmetric] S_def [symmetric] using s0 by (rule rnd_nonneg)
  have "rnd (rnd (a * S) + 1/2) \<le> rnd (65533 / 2)" using s0 s1 by (rule rnd_mono)
  then show "ramp_value N i \<le> 65533 / 2"
    unfolding ramp_value_def a_def [symmetric] S_def [symmetric] by (simp only: rnd_values)
qed

lemma ramp_value_mono:
  assumes "3 \<le> (N :: u32)" and "i \<le> j"
  shows "ramp_value N i \<le> ramp_value N j"
proof -
  define S where "S = scale_value N"
  have S0: "0 \<le> S" unfolding S_def using scale_value_bounds [OF assms(1)] by simp
  have a0: "0 \<le> rnd (of_int (uint i))" by (rule rnd_nonneg) (rule uint_u32_bounds)
  have "rnd (of_int (uint i)) \<le> rnd (of_int (uint j))" using assms(2) by (rule rnd_u32_le)
  then have "rnd (of_int (uint i)) * S \<le> rnd (of_int (uint j)) * S"
    using S0 by (rule mult_right_mono)
  moreover have p0: "0 \<le> rnd (of_int (uint i)) * S" using a0 S0 by simp
  ultimately have "rnd (rnd (of_int (uint i)) * S) \<le> rnd (rnd (of_int (uint j)) * S)"
    by (intro rnd_mono)
  moreover have "0 \<le> rnd (rnd (of_int (uint i)) * S)" using p0 by (rule rnd_nonneg)
  ultimately show ?thesis
    unfolding ramp_value_def S_def [symmetric] by (intro rnd_mono) simp_all
qed

section \<open>What GenerateRampWave stores\<close>

lemma u32_inc:
  assumes "(i :: u32) < n"
  shows "unat (i + 1) = Suc (unat i)" and "i + 1 \<le> n"
proof -
  from assms have "unat i < unat n" by (simp add: word_less_nat_alt)
  moreover have "unat n < 2 ^ 32" using unsigned_less [of n] by simp
  ultimately have "unat i + unat (1 :: u32) < 2 ^ LENGTH(32)" by simp
  then have "unat (i + 1) = unat i + unat (1 :: u32)" by (simp only: unat_add_lem)
  then show "unat (i + 1) = Suc (unat i)" by simp
  with \<open>unat i < unat n\<close> show "i + 1 \<le> n" by (simp add: word_le_nat_alt)
qed

lemma ramp_loop_unfold:
  "ramp_loop scaleFactor NumSamples i Buffer =
     (if i < NumSamples then
        (case shiftedValue_at scaleFactor NumSamples i of
           Inl e \<Rightarrow> Inl e
         | Inr shiftedValue \<Rightarrow>
             if unat i < length Buffer
             then ramp_loop scaleFactor NumSamples (i + 1) (Buffer[unat i := shiftedValue])
             else Inl OutOfBounds)
      else Inr Buffer)"
  by (subst ramp_loop.simps) (simp add: shiftedValue_at_def)

lemma last_index:
  assumes "(i :: u32) < N"
  shows "(i = N - 1) = (unat i = unat N - 1)" and "i \<noteq> N - 1 \<Longrightarrow> i \<le> N - 2"
proof -
  from assms have lt: "unat i < unat N" by (simp add: word_less_nat_alt)
  then have "1 \<le> N" by (simp add: word_le_nat_alt)
  then have u1: "unat (N - 1) = unat N - 1" by (simp add: unat_sub)
  show eq: "(i = N - 1) = (unat i = unat N - 1)"
    using u1 by (metis word_unat_eq_iff)
  assume "i \<noteq> N - 1"
  with eq lt have "unat i < unat N - 1" by simp
  then have "2 \<le> unat N" by simp
  then have "2 \<le> N" by (simp add: word_le_nat_alt)
  then have "unat (N - 2) = unat N - 2" by (simp add: unat_sub)
  with \<open>unat i < unat N - 1\<close> show "i \<le> N - 2" by (simp add: word_le_nat_alt)
qed

lemma f32_to_u32_floor:
  assumes "0 \<le> x" and "x < 4294967296"
  shows "f32_to_u32 (Finite x) = Inr (word_of_int \<lfloor>x\<rfloor>)"
  using assms by simp

lemma shiftedValue_at_ramp:
  assumes "3 \<le> N" and "i < N"
  shows "shiftedValue_at (Finite (scale_value N)) N i = Inr (ramp_word N (unat i))"
proof (cases "i = N - 1")
  case True
  then show ?thesis
    using last_index(1) [OF assms(2)] by (simp add: shiftedValue_at_def ramp_word_def)
next
  case False
  then have le: "i \<le> N - 2" using assms(2) by (rule last_index(2) [rotated])
  have ne: "unat i \<noteq> unat N - 1" using False last_index(1) [OF assms(2)] by simp
  note rv = ramp_value_finite [OF assms(1) le]
  have "f32_to_u32 (Finite (ramp_value N i)) = Inr (word_of_int \<lfloor>ramp_value N i\<rfloor>)"
    using rv(2,3) by (intro f32_to_u32_floor) simp_all
  then show ?thesis
    using False ne rv(1) by (simp add: shiftedValue_at_def ramp_word_def min_def not_less)
qed

lemma ramp_loop_ramp:
  assumes "3 \<le> N" and "i \<le> N" and "unat N \<le> length B"
  shows "ramp_loop (Finite (scale_value N)) N i B =
           Inr (take (unat i) B @ map (ramp_word N) [unat i..<unat N] @ drop (unat N) B)"
  using assms(2,3)
proof (induction "unat N - unat i" arbitrary: i B)
  case 0
  then have "unat i = unat N" by (simp add: word_le_nat_alt)
  then have "i = N" by (simp only: word_unat_eq_iff)
  then show ?case by (subst ramp_loop_unfold) simp
next
  case (Suc k)
  then have lt: "i < N" by (simp add: word_less_nat_alt)
  then have ui: "unat i < unat N" by (simp add: word_less_nat_alt)
  note inc = u32_inc [OF lt]
  let ?B = "B[unat i := ramp_word N (unat i)]"
  have "ramp_loop (Finite (scale_value N)) N (i + 1) ?B =
          Inr (take (unat (i + 1)) ?B @ map (ramp_word N) [unat (i + 1)..<unat N] @ drop (unat N) ?B)"
    using Suc.hyps(2) Suc.prems inc by (intro Suc.hyps(1)) simp_all
  moreover have "take (unat (i + 1)) ?B = take (unat i) B @ [ramp_word N (unat i)]"
    using ui Suc.prems(2) by (simp add: inc(1) take_Suc_conv_app_nth)
  moreover have "drop (unat N) ?B = drop (unat N) B"
    using ui by simp
  moreover have "[unat i..<unat N] = unat i # [unat (i + 1)..<unat N]"
    using ui by (simp add: inc(1) upt_conv_Cons)
  ultimately show ?case
    using lt ui Suc.prems(2) shiftedValue_at_ramp [OF assms(1) lt]
    by (subst ramp_loop_unfold) simp
qed

lemma GenerateRampWave_ramp:
  assumes "3 \<le> N" and "unat N \<le> length B"
  shows "GenerateRampWave B N = Inr (ramp N @ drop (unat N) B)"
  using ramp_loop_ramp [OF assms(1) _ assms(2), of 0] scaleFactor_finite [OF assms(1)]
  by (simp add: GenerateRampWave_def ramp_def)

lemma ramp_loop_Inr:
  assumes "ramp_loop sf N i B = Inr r" and "i \<le> N"
  shows "r = take (unat i) B @ map (stored sf N) [unat i..<unat N] @ drop (unat N) B \<and>
         (i < N \<longrightarrow> unat N \<le> length B) \<and>
         (\<forall>j. unat i \<le> j \<and> j < unat N \<longrightarrow> (\<exists>v. shiftedValue_at sf N (of_nat j) = Inr v))"
  using assms
proof (induction "unat N - unat i" arbitrary: i B)
  case 0
  then have "unat i = unat N" by (simp add: word_le_nat_alt)
  then have "i = N" by (simp only: word_unat_eq_iff)
  with 0(2) show ?case by (subst (asm) ramp_loop_unfold) auto
next
  case (Suc k)
  then have lt: "i < N" by (simp add: word_less_nat_alt)
  then have ui: "unat i < unat N" by (simp add: word_less_nat_alt)
  note inc = u32_inc [OF lt]
  from Suc.prems(1) lt obtain v where v: "shiftedValue_at sf N i = Inr v"
    and len: "unat i < length B"
    and rec: "ramp_loop sf N (i + 1) (B[unat i := v]) = Inr r"
    by (subst (asm) ramp_loop_unfold) (auto split: sum.splits if_splits)
  let ?B = "B[unat i := v]"
  have k: "k = unat N - unat (i + 1)" using Suc.hyps(2) inc(1) by simp
  from Suc.hyps(1) [OF k rec inc(2)]
  have r: "r = take (unat (i + 1)) ?B @ map (stored sf N) [unat (i + 1)..<unat N] @ drop (unat N) ?B"
    and l: "i + 1 < N \<longrightarrow> unat N \<le> length ?B"
    and a: "\<forall>j. unat (i + 1) \<le> j \<and> j < unat N \<longrightarrow> (\<exists>v. shiftedValue_at sf N (of_nat j) = Inr v)"
    by blast+
  have sv: "stored sf N (unat i) = v"
    by (simp add: stored_def v)
  have 1: "take (unat (i + 1)) ?B = take (unat i) B @ [v]"
    using len by (simp add: inc(1) take_Suc_conv_app_nth)
  have 2: "drop (unat N) ?B = drop (unat N) B"
    using ui by simp
  have 3: "[unat i..<unat N] = unat i # [unat (i + 1)..<unat N]"
    using ui by (simp add: inc(1) upt_conv_Cons)
  have "unat N \<le> length B"
  proof (cases "i + 1 < N")
    case True
    with l show ?thesis by simp
  next
    case False
    with inc(2) have "i + 1 = N" by simp
    with inc(1) len show ?thesis by simp
  qed
  moreover have "\<exists>v. shiftedValue_at sf N (of_nat j) = Inr v" if "unat i \<le> j" "j < unat N" for j
  proof (cases "j = unat i")
    case True
    with v show ?thesis by simp
  next
    case False
    with that inc(1) a show ?thesis by simp
  qed
  ultimately show ?case
    by (simp add: r 1 2 3 sv)
qed

lemma ramp_loop_ok:
  assumes "i \<le> N" and "i < N \<longrightarrow> unat N \<le> length B"
    and "\<forall>j. unat i \<le> j \<and> j < unat N \<longrightarrow> (\<exists>v. shiftedValue_at sf N (of_nat j) = Inr v)"
  shows "ramp_loop sf N i B =
           Inr (take (unat i) B @ map (stored sf N) [unat i..<unat N] @ drop (unat N) B)"
  using assms
proof (induction "unat N - unat i" arbitrary: i B)
  case 0
  then have "unat i = unat N" by (simp add: word_le_nat_alt)
  then have "i = N" by (simp only: word_unat_eq_iff)
  then show ?case by (subst ramp_loop_unfold) simp
next
  case (Suc k)
  then have lt: "i < N" by (simp add: word_less_nat_alt)
  then have ui: "unat i < unat N" by (simp add: word_less_nat_alt)
  note inc = u32_inc [OF lt]
  from Suc.prems(2) lt have len: "unat N \<le> length B" by simp
  from Suc.prems(3) ui obtain v where "shiftedValue_at sf N (of_nat (unat i)) = Inr v"
    by blast
  then have v: "shiftedValue_at sf N i = Inr v" by simp
  then have sv: "stored sf N (unat i) = v"
    by (simp add: stored_def)
  let ?B = "B[unat i := v]"
  have k: "k = unat N - unat (i + 1)" using Suc.hyps(2) inc(1) by simp
  have "ramp_loop sf N (i + 1) ?B =
      Inr (take (unat (i + 1)) ?B @ map (stored sf N) [unat (i + 1)..<unat N] @ drop (unat N) ?B)"
    using Suc.prems(3) len by (intro Suc.hyps(1) [OF k inc(2)]) (simp_all add: inc(1))
  moreover have "take (unat (i + 1)) ?B = take (unat i) B @ [v]"
    using len ui by (simp add: inc(1) take_Suc_conv_app_nth)
  moreover have "drop (unat N) ?B = drop (unat N) B"
    using ui by simp
  moreover have "[unat i..<unat N] = unat i # [unat (i + 1)..<unat N]"
    using ui by (simp add: inc(1) upt_conv_Cons)
  ultimately show ?case
    using lt ui len v sv by (subst ramp_loop_unfold) simp
qed

lemma mask_18: "(0x3FFFF :: u32) = mask 18"
  by (simp add: mask_eq_exp_minus_1)

lemma shift_low_bits: "push_bit 18 (a :: u32) AND 0x3FFFF = 0"
  unfolding mask_18 by (simp add: take_bit_push_bit flip: take_bit_eq_mask)

lemma shift_back:
  assumes "(a :: u32) \<le> 0x3FFF"
  shows "drop_bit 18 (push_bit 18 a) = a"
proof -
  from assms have "unat a \<le> 16383" by (simp add: word_le_nat_alt)
  then have "unat a < 2 ^ 14" by simp
  then have "take_bit 14 (unat a) = unat a" by (simp only: take_bit_nat_eq_self)
  then have "take_bit 14 a = a"
    by (metis unsigned_take_bit_eq word_unat_eq_iff)
  have "drop_bit 18 (push_bit 18 a) = take_bit (32 - 18) a"
    by (rule bit_word_eqI) (auto simp add: bit_simps)
  with \<open>take_bit 14 a = a\<close> show ?thesis by simp
qed


lemma index_word:
  assumes "3 \<le> (N :: u32)" and "j < unat N - 1"
  shows "unat (of_nat j :: u32) = j" and "(of_nat j :: u32) \<le> N - 2" and "(of_nat j :: u32) < N"
proof -
  have "unat N < 2 ^ 32" using unsigned_less [of N] by simp
  with assms(2) have "j < 2 ^ LENGTH(32)" by simp
  then show j: "unat (of_nat j :: u32) = j" by (simp only: unat_of_nat mod_less)
  have "2 \<le> N" using assms(1) by (simp add: word_le_nat_alt)
  then have "unat (N - 2) = unat N - 2" by (simp add: unat_sub)
  with assms(2) j show "(of_nat j :: u32) \<le> N - 2" by (simp add: word_le_nat_alt)
  from assms(2) j show "(of_nat j :: u32) < N" by (simp add: word_less_nat_alt)
qed

lemma amplitude_word_le: "amplitude_word N j \<le> 0x3FFF"
  by (simp add: amplitude_word_def MAX_COUNT_def)

lemma ramp_word_amplitude:
  assumes "j \<noteq> unat N - 1"
  shows "ramp_word N j = push_bit 18 (amplitude_word N j)"
  using assms by (simp add: ramp_word_def amplitude_word_def)

lemma spec_amplitude_word:
  assumes "3 \<le> N" and "j < unat N - 1"
  shows "spec_amplitude N (of_nat j) = Inr (amplitude_word N j)"
proof -
  note le = index_word(2) [OF assms]
  note rv = ramp_value_finite [OF assms(1) le]
  have "f32_to_u32 (Finite (ramp_value N (of_nat j))) =
      Inr (word_of_int \<lfloor>ramp_value N (of_nat j)\<rfloor>)"
    using rv(2,3) by (intro f32_to_u32_floor) simp_all
  then show ?thesis
    by (simp add: spec_amplitude_def scaleFactor_finite [OF assms(1)] rv(1) amplitude_word_def)
qed

lemma amplitude_word_mono:
  assumes "3 \<le> N" and "i \<le> j" and "j < unat N - 1"
  shows "amplitude_word N i \<le> amplitude_word N j"
proof -
  from assms have i: "i < unat N - 1" by simp
  have "unat (of_nat i :: u32) \<le> unat (of_nat j :: u32)"
    using assms(2) by (simp only: index_word(1) [OF assms(1) i] index_word(1) [OF assms(1,3)])
  then have "(of_nat i :: u32) \<le> of_nat j" by (simp add: word_le_nat_alt)
  with assms(1) have "ramp_value N (of_nat i) \<le> ramp_value N (of_nat j)"
    by (rule ramp_value_mono)
  then have fl: "\<lfloor>ramp_value N (of_nat i)\<rfloor> \<le> \<lfloor>ramp_value N (of_nat j)\<rfloor>"
    by (rule floor_mono)
  have b: "0 \<le> \<lfloor>ramp_value N (of_nat k)\<rfloor> \<and> \<lfloor>ramp_value N (of_nat k)\<rfloor> < 2 ^ 32"
    if "k < unat N - 1" for k
  proof -
    note rv = ramp_value_finite(2,3) [OF assms(1) index_word(2) [OF assms(1) that]]
    from rv(1) have "0 \<le> \<lfloor>ramp_value N (of_nat k)\<rfloor>" by simp
    moreover from rv(2) have "ramp_value N (of_nat k) < 32767" by simp
    then have "\<lfloor>ramp_value N (of_nat k)\<rfloor> < 32767" by (simp add: floor_less_iff)
    ultimately show ?thesis by simp
  qed
  have "(word_of_int \<lfloor>ramp_value N (of_nat i)\<rfloor> :: u32) \<le> word_of_int \<lfloor>ramp_value N (of_nat j)\<rfloor>"
    using fl b [OF i] b [OF assms(3)]
    by (simp add: word_of_int_less_eq_iff take_bit_int_eq_self)
  then show ?thesis
    by (simp add: amplitude_word_def min_le_iff_disj)
qed

lemma nth_ramp:
  assumes "j < unat N"
  shows "(ramp N @ xs) ! j = ramp_word N j"
  using assms by (simp add: ramp_def nth_append)

lemma ramp_word_256: "ramp_word 256 0 = 0" "ramp_word 256 127 = 0x80000000" "ramp_word 256 255 = 0"
  by code_simp+



section \<open>The passes of the loop in main\<close>

lemma TxBuffer_calls [simp]:
  "TxBuffer (call_TxPutWord d w st) = TxBuffer st"
  "TxBuffer (call_TxSetLen d n st) = TxBuffer st"
  "TxBuffer (call_IntClear d m st) = TxBuffer st"
  "TxBuffer (call_Reset d st) = TxBuffer st"
  "TxBuffer (call_Initialize d a st) = TxBuffer st"
  "TxBuffer (call_usleep d k st) = TxBuffer st"
  "TxBuffer (xil_printf msg st) = TxBuffer st"
  "TxBuffer (snd (call_Status d st)) = TxBuffer st"
  "TxBuffer (snd (call_iTxVacancy d st)) = TxBuffer st"
  "TxBuffer (sent d ws st) = TxBuffer st"
  by (simp_all add: call_TxPutWord_def call_TxSetLen_def call_IntClear_def call_Reset_def
      call_Initialize_def call_usleep_def xil_printf_def call_Status_def call_iTxVacancy_def
      sent_def split: prod.split)

lemma calls_calls [simp]:
  "calls (call_TxPutWord d w st) = calls st @ [TxPutWord w]"
  "calls (call_TxSetLen d n st) = calls st @ [TxSetLen n]"
  "calls (call_IntClear d m st) = calls st @ [IntClear m]"
  "calls (call_Reset d st) = calls st @ [Reset]"
  "calls (call_Initialize d a st) = calls st @ [Initialize a]"
  "calls (call_usleep d k st) = calls st @ [Usleep k]"
  "calls (xil_printf msg st) = calls st @ [Xil_printf msg]"
  "calls (snd (call_Status d st)) = calls st @ [Status]"
  "calls (snd (call_iTxVacancy d st)) = calls st @ [iTxVacancy]"
  "calls (sent d ws st) = calls st @ map TxPutWord ws"
  by (simp_all add: call_TxPutWord_def call_TxSetLen_def call_IntClear_def call_Reset_def
      call_Initialize_def call_usleep_def xil_printf_def call_Status_def call_iTxVacancy_def
      sent_def split: prod.split)

lemma sent_Nil: "sent d [] st = st"
  by (simp add: sent_def)

lemma sent_Cons: "sent d (w # ws) st = sent d ws (call_TxPutWord d w st)"
  by (simp add: sent_def call_TxPutWord_def)

lemma tx_loop_sent:
  assumes "unat i \<le> NUM_SAMPLES" and "length (TxBuffer st) = NUM_SAMPLES"
  shows "tx_loop d i st = Inr (sent d (drop (unat i) (TxBuffer st)) st)"
  using assms
proof (induction "NUM_SAMPLES - unat i" arbitrary: i st)
  case 0
  then have "unat i = NUM_SAMPLES" by simp
  then have "\<not> i < of_nat NUM_SAMPLES"
    by (simp add: word_less_nat_alt NUM_SAMPLES_def)
  with 0 show ?case
    by (subst tx_loop.simps) (simp add: sent_Nil)
next
  case (Suc k)
  then have ui: "unat i < NUM_SAMPLES" by simp
  then have lt: "i < of_nat NUM_SAMPLES"
    by (simp add: word_less_nat_alt NUM_SAMPLES_def)
  note inc = u32_inc(1) [OF lt]
  let ?st = "call_TxPutWord d (TxBuffer st ! unat i) st"
  have "tx_loop d (i + 1) ?st = Inr (sent d (drop (unat (i + 1)) (TxBuffer ?st)) ?st)"
    using Suc.hyps(2) Suc.prems ui by (intro Suc.hyps(1)) (simp_all add: inc)
  moreover have "drop (unat i) (TxBuffer st) = TxBuffer st ! unat i # drop (unat (i + 1)) (TxBuffer st)"
    using ui Suc.prems(2) by (simp add: inc Cons_nth_drop_Suc)
  ultimately show ?case
    using lt ui Suc.prems(2) by (subst tx_loop.simps) (simp add: sent_Cons)
qed

lemma iteration_eq:
  assumes "length (TxBuffer st) = NUM_SAMPLES"
  shows "iteration d st =
     (case call_iTxVacancy d st of (vacancy, st1) \<Rightarrow>
        if sint vacancy < int NUM_SAMPLES then
          Inl (Inr (XST_FAILURE,
            xil_printf (NotEnoughSpace (int NUM_SAMPLES) (sint vacancy)) st1))
        else
          (case call_Status d (call_TxSetLen d TxFrameLength (sent d (TxBuffer st) st1)) of (s, st3) \<Rightarrow>
             if s AND XLLF_INT_ERROR_MASK d \<noteq> 0 then
               Inl (Inr (XST_FAILURE,
                 call_IntClear d (XLLF_INT_ERROR_MASK d)
                   (xil_printf (TransmissionError s) st3)))
             else Inr st3))"
proof -
  obtain vacancy st1 where v: "call_iTxVacancy d st = (vacancy, st1)"
    by (cases "call_iTxVacancy d st")
  then have "st1 = snd (call_iTxVacancy d st)" by simp
  then have "TxBuffer st1 = TxBuffer st" by simp
  with assms have "tx_loop d 0 st1 = Inr (sent d (TxBuffer st) st1)"
    using tx_loop_sent [of 0 st1 d] by simp
  then show ?thesis
    by (simp add: iteration_def v)
qed


lemma length_ramp: "length (ramp N) = unat N"
  by (simp add: ramp_def)

lemma NUM_SAMPLES_u32:
  "3 \<le> (of_nat NUM_SAMPLES :: u32)" "unat (of_nat NUM_SAMPLES :: u32) = NUM_SAMPLES"
  by (simp_all add: NUM_SAMPLES_def)

lemma TxBuffer_startup: "TxBuffer (startup d h) = replicate NUM_SAMPLES 0"
  by (simp add: startup_def)

lemma generate_in_main:
  "GenerateRampWave (TxBuffer (startup d h)) (of_nat NUM_SAMPLES) = Inr (ramp (of_nat NUM_SAMPLES))"
  using GenerateRampWave_ramp [OF NUM_SAMPLES_u32(1), of "replicate NUM_SAMPLES 0"]
  by (simp add: TxBuffer_startup NUM_SAMPLES_u32(2))

lemma state_at_0: "state_at d h 0 = Some (loop_entry d h)"
  by (simp add: generate_in_main loop_entry_def)

lemma iteration_TxBuffer:
  assumes "length (TxBuffer st) = NUM_SAMPLES" and "iteration d st = Inr st'"
  shows "TxBuffer st' = TxBuffer st"
proof -
  obtain vacancy st1 where v: "call_iTxVacancy d st = (vacancy, st1)"
    by (cases "call_iTxVacancy d st")
  obtain s st3 where s: "call_Status d (call_TxSetLen d TxFrameLength (sent d (TxBuffer st) st1)) = (s, st3)"
    by (cases "call_Status d (call_TxSetLen d TxFrameLength (sent d (TxBuffer st) st1))")
  have "st1 = snd (call_iTxVacancy d st)" using v by simp
  then have 1: "TxBuffer st1 = TxBuffer st" by simp
  have "st3 = snd (call_Status d (call_TxSetLen d TxFrameLength (sent d (TxBuffer st) st1)))" using s by simp
  then have "TxBuffer st3 = TxBuffer st" using 1 by simp
  moreover have "st' = st3"
    using assms(2) by (simp add: iteration_eq [OF assms(1)] v s split: if_splits)
  ultimately show ?thesis by simp
qed

lemma state_at_TxBuffer:
  assumes "state_at d h n = Some st"
  shows "TxBuffer st = ramp (of_nat NUM_SAMPLES)"
  using assms
proof (induction n arbitrary: st)
  case 0
  then have "st = loop_entry d h"
    by (simp only: state_at_0 option.inject)
  then show ?case by (simp add: loop_entry_def)
next
  case (Suc n)
  then obtain st0 where st0: "state_at d h n = Some st0"
    and it: "iteration d st0 = Inr st"
    by (auto split: option.splits sum.splits)
  from Suc.IH [OF st0] have b: "TxBuffer st0 = ramp (of_nat NUM_SAMPLES)" .
  then have "length (TxBuffer st0) = NUM_SAMPLES"
    by (simp add: length_ramp NUM_SAMPLES_u32(2))
  then have "TxBuffer st = TxBuffer st0" using it by (rule iteration_TxBuffer)
  with b show ?case by simp
qed

lemma state_at_length:
  assumes "state_at d h n = Some st"
  shows "length (TxBuffer st) = NUM_SAMPLES"
  using state_at_TxBuffer [OF assms] by (simp add: length_ramp NUM_SAMPLES_u32(2))

lemma main_state_at:
  assumes "state_at d h n = Some st"
  shows "main d h = main_loop d st"
  using assms
proof (induction n arbitrary: st)
  case 0
  then have "st = loop_entry d h"
    by (simp only: state_at_0 option.inject)
  then show ?case
    by (simp add: main_def Let_def generate_in_main loop_entry_def)
next
  case (Suc n)
  then obtain st0 where st0: "state_at d h n = Some st0"
    and it: "iteration d st0 = Inr st"
    by (auto split: option.splits sum.splits)
  have "main d h = main_loop d st0"
    using st0 by (rule Suc.IH)
  also have "\<dots> = main_loop d st"
    by (subst main_loop.simps) (simp add: it)
  finally show ?case .
qed

lemma main_ends:
  assumes "state_at d h n = Some st" and "iteration d st = Inl y"
  shows "main d h = Some y" and "state_at d h (Suc n) = None"
proof -
  have "main d h = main_loop d st"
    using assms(1) by (rule main_state_at)
  also have "\<dots> = Some y"
    by (subst main_loop.simps) (simp add: assms(2))
  finally show "main d h = Some y" .
  show "state_at d h (Suc n) = None"
    by (simp add: assms)
qed

lemma main_loop_Some:
  assumes "main_loop d st = Some y"
  shows "\<forall>n. state_at d h n = Some st \<longrightarrow>
           (\<exists>n' st'. state_at d h n' = Some st' \<and> iteration d st' = Inl y)"
proof (rule main_loop.raw_induct [where P = "\<lambda>d st y. \<forall>n. state_at d h n = Some st \<longrightarrow>
           (\<exists>n' st'. state_at d h n' = Some st' \<and> iteration d st' = Inl y)", OF _ assms])
  fix loop :: "'a driver \<Rightarrow> 'a state \<Rightarrow> (fault + status \<times> 'a state) option"
    and d st y
  assume IH: "\<And>d st y. loop d st = Some y \<Longrightarrow> \<forall>n. state_at d h n = Some st \<longrightarrow>
           (\<exists>n' st'. state_at d h n' = Some st' \<and> iteration d st' = Inl y)"
    and eq: "(case iteration d st of Inl r \<Rightarrow> Some r | Inr st' \<Rightarrow> loop d st') = Some y"
  show "\<forall>n. state_at d h n = Some st \<longrightarrow>
           (\<exists>n' st'. state_at d h n' = Some st' \<and> iteration d st' = Inl y)"
  proof (intro impI allI)
    fix n
    assume st: "state_at d h n = Some st"
    show "\<exists>n' st'. state_at d h n' = Some st' \<and> iteration d st' = Inl y"
    proof (cases "iteration d st")
      case (Inl r)
      with eq have "r = y" by simp
      with Inl st show ?thesis by blast
    next
      case (Inr st2)
      with eq have "loop d st2 = Some y" by simp
      moreover have "state_at d h (Suc n) = Some st2"
        using st Inr by simp
      ultimately show ?thesis
        using IH by blast
    qed
  qed
qed

lemma main_Some:
  assumes "main d h = Some y"
  shows "\<exists>n st. state_at d h n = Some st \<and> iteration d st = Inl y"
proof -
  have "main_loop d (loop_entry d h) = Some y"
    using assms main_state_at [OF state_at_0, of d h] by simp
  then have "\<forall>n. state_at d h n = Some (loop_entry d h) \<longrightarrow>
           (\<exists>n' st'. state_at d h n' = Some st' \<and> iteration d st' = Inl y)"
    by (rule main_loop_Some)
  with state_at_0 [of d h] show ?thesis
    by blast
qed

lemma sint_small:
  assumes "unat (v :: u32) \<le> NUM_SAMPLES"
  shows "sint v = int (unat v)"
proof -
  have u: "uint v = int (unat v)" by (rule uint_nat)
  have "int (unat v) \<le> 256" using assms by (simp only: NUM_SAMPLES_def)
  moreover have "0 \<le> uint v" by simp
  ultimately have "uint v < 2147483648" and "- 2147483648 \<le> uint v" using u by linarith+
  then have "uint v < 2 ^ 31" and "- (2 ^ 31) \<le> uint v" by simp_all
  then have "signed_take_bit 31 (uint v) = uint v"
    by (intro signed_take_bit_int_eq_self)
  with u show ?thesis
    by (simp add: sint_uint)
qed

lemma iteration_split:
  assumes "state_at d h n = Some st" and "call_iTxVacancy d st = (vacancy, st1)"
  shows "sint vacancy < int NUM_SAMPLES \<Longrightarrow>
           iteration d st = Inl (Inr (XST_FAILURE,
             xil_printf (NotEnoughSpace (int NUM_SAMPLES) (sint vacancy)) st1))"
    and "\<not> sint vacancy < int NUM_SAMPLES \<Longrightarrow>
           call_Status d (call_TxSetLen d TxFrameLength (sent d (TxBuffer st) st1)) = (s, st3) \<Longrightarrow>
           iteration d st =
             (if s AND XLLF_INT_ERROR_MASK d \<noteq> 0
              then Inl (Inr (XST_FAILURE,
                     call_IntClear d (XLLF_INT_ERROR_MASK d) (xil_printf (TransmissionError s) st3)))
              else Inr st3)"
    and "tx_loop d 0 st1 = Inr (sent d (TxBuffer st) st1)"
    and "calls st1 = calls st @ [iTxVacancy]"
proof -
  note len = state_at_length [OF assms(1)]
  show "sint vacancy < int NUM_SAMPLES \<Longrightarrow>
           iteration d st = Inl (Inr (XST_FAILURE,
             xil_printf (NotEnoughSpace (int NUM_SAMPLES) (sint vacancy)) st1))"
    by (simp add: iteration_eq [OF len] assms(2))
  show "\<not> sint vacancy < int NUM_SAMPLES \<Longrightarrow>
           call_Status d (call_TxSetLen d TxFrameLength (sent d (TxBuffer st) st1)) = (s, st3) \<Longrightarrow>
           iteration d st =
             (if s AND XLLF_INT_ERROR_MASK d \<noteq> 0
              then Inl (Inr (XST_FAILURE,
                     call_IntClear d (XLLF_INT_ERROR_MASK d) (xil_printf (TransmissionError s) st3)))
              else Inr st3)"
    by (simp add: iteration_eq [OF len] assms(2))
  have st1: "st1 = snd (call_iTxVacancy d st)" using assms(2) by simp
  then have "TxBuffer st1 = TxBuffer st" by simp
  with len show "tx_loop d 0 st1 = Inr (sent d (TxBuffer st) st1)"
    using tx_loop_sent [of 0 st1 d] by simp
  show "calls st1 = calls st @ [iTxVacancy]"
    by (simp add: st1)
qed

lemma after_commit_calls:
  assumes "call_Status d (call_TxSetLen d L (sent d ws st1)) = (s, st3)"
  shows "calls st3 = calls st1 @ map TxPutWord ws @ [TxSetLen L, Status]"
proof -
  have "st3 = snd (call_Status d (call_TxSetLen d L (sent d ws st1)))"
    using assms by simp
  then show ?thesis by simp
qed

lemma TxFrameLength_bytes: "unat TxFrameLength = NUM_SAMPLES * 4" "TxFrameLength = 1024"
  by (simp_all add: TxFrameLength_def NUM_SAMPLES_def)

lemma calls_startup:
  "calls (startup d h) =
     [Xil_printf Banner, Initialize (FIFO_BASE_ADDR d), Reset, IntClear 0xffffffff, Usleep 1000,
      Status, Xil_printf GeneratingPattern]"
  by (simp add: startup_def)

lemma iteration_Inr:
  assumes "state_at d h n = Some st" and "iteration d st = Inr st'"
  shows "calls st' =
           calls st @ [iTxVacancy] @ map TxPutWord (TxBuffer st) @ [TxSetLen TxFrameLength, Status]"
    and "TxBuffer st' = TxBuffer st"
proof -
  obtain vacancy st1 where v: "call_iTxVacancy d st = (vacancy, st1)"
    by (cases "call_iTxVacancy d st")
  obtain s st3 where s: "call_Status d (call_TxSetLen d TxFrameLength (sent d (TxBuffer st) st1)) = (s, st3)"
    by (cases "call_Status d (call_TxSetLen d TxFrameLength (sent d (TxBuffer st) st1))")
  have ok: "\<not> sint vacancy < int NUM_SAMPLES"
    using iteration_split(1) [OF assms(1) v] assms(2) by auto
  have "st' = st3"
    using iteration_split(2) [OF assms(1) v ok s] assms(2) by (simp split: if_splits)
  then show "calls st' =
      calls st @ [iTxVacancy] @ map TxPutWord (TxBuffer st) @ [TxSetLen TxFrameLength, Status]"
    using after_commit_calls [OF s] iteration_split(4) [OF assms(1) v] by simp
  show "TxBuffer st' = TxBuffer st"
    using state_at_length [OF assms(1)] assms(2) by (rule iteration_TxBuffer)
qed

lemma no_error_printed:
  assumes "state_at d h n = Some st"
  shows "Xil_printf (TransmissionError s) \<notin> set (calls st)"
  using assms
proof (induction n arbitrary: st)
  case 0
  then have "st = loop_entry d h"
    by (simp only: state_at_0 option.inject)
  then show ?case
    by (simp add: loop_entry_def calls_startup)
next
  case (Suc n)
  then obtain st0 where st0: "state_at d h n = Some st0" and it: "iteration d st0 = Inr st"
    by (auto split: option.splits sum.splits)
  from Suc.IH [OF st0] iteration_Inr(1) [OF st0 it] show ?case
    by auto
qed

lemma not_enough_iff:
  assumes "state_at d h n = Some st" and "call_iTxVacancy d st = (vacancy, st1)"
  shows "(iteration d st = Inl (Inr (XST_FAILURE,
            xil_printf (NotEnoughSpace (int NUM_SAMPLES) (sint vacancy)) st1))) =
         (sint vacancy < int NUM_SAMPLES)"
proof
  assume "sint vacancy < int NUM_SAMPLES"
  then show "iteration d st = Inl (Inr (XST_FAILURE,
            xil_printf (NotEnoughSpace (int NUM_SAMPLES) (sint vacancy)) st1))"
    by (rule iteration_split(1) [OF assms])
next
  assume it: "iteration d st = Inl (Inr (XST_FAILURE,
            xil_printf (NotEnoughSpace (int NUM_SAMPLES) (sint vacancy)) st1))"
  show "sint vacancy < int NUM_SAMPLES"
  proof (rule ccontr)
    assume ok: "\<not> sint vacancy < int NUM_SAMPLES"
    obtain s st3 where s: "call_Status d (call_TxSetLen d TxFrameLength (sent d (TxBuffer st) st1)) = (s, st3)"
      by (cases "call_Status d (call_TxSetLen d TxFrameLength (sent d (TxBuffer st) st1))")
    from iteration_split(2) [OF assms ok s] it
    have "xil_printf (NotEnoughSpace (int NUM_SAMPLES) (sint vacancy)) st1 =
        call_IntClear d (XLLF_INT_ERROR_MASK d) (xil_printf (TransmissionError s) st3)"
      by (simp split: if_splits)
    then have "calls (xil_printf (NotEnoughSpace (int NUM_SAMPLES) (sint vacancy)) st1) =
        calls (call_IntClear d (XLLF_INT_ERROR_MASK d) (xil_printf (TransmissionError s) st3))"
      by simp
    then show False by simp
  qed
qed


section \<open>The two example FIFOs\<close>

lemma hw_startup_mock: "hw (startup (mock m) (vs, ss)) = (vs, tl ss)"
  by (simp add: startup_def mock_def xil_printf_def call_Status_def call_usleep_def
      call_IntClear_def call_Reset_def call_Initialize_def)

lemma mock_iTxVacancy:
  "call_iTxVacancy (mock m) (loop_entry (mock m) (v # vs, ss)) =
     (v, snd (call_iTxVacancy (mock m) (loop_entry (mock m) (v # vs, ss))))"
  by (simp add: call_iTxVacancy_def loop_entry_def hw_startup_mock) (simp add: mock_def)

lemma hw_mock [simp]:
  "hw (sent (mock m) ws st) = hw st"
  "hw (call_TxSetLen (mock m) L st) = hw st"
  "hw (snd (call_iTxVacancy (mock m) st)) = (tl (fst (hw st)), snd (hw st))"
proof -
  have "fold (XLlFifo_TxPutWord (mock m)) ws x = x" for x
    by (induction ws) (simp_all add: mock_def)
  then show "hw (sent (mock m) ws st) = hw st"
    by (simp add: sent_def)
  show "hw (call_TxSetLen (mock m) L st) = hw st"
    by (simp add: call_TxSetLen_def mock_def)
  show "hw (snd (call_iTxVacancy (mock m) st)) = (tl (fst (hw st)), snd (hw st))"
    by (simp add: call_iTxVacancy_def mock_def split: prod.split)
qed

lemma mock_Status:
  assumes "snd (hw st) = s # ss"
  shows "call_Status (mock m) st = (s, snd (call_Status (mock m) st))"
  using assms by (cases "hw st") (simp add: call_Status_def mock_def)

lemma hw_loop_entry_mock: "hw (loop_entry (mock m) (vs, ss)) = (vs, tl ss)"
  by (simp add: loop_entry_def hw_startup_mock)

lemma mock_pass:
  fixes m s :: u32 and ss :: "u32 list"
  defines "d \<equiv> mock m" and "h \<equiv> ([256], 0 # s # ss)"
  defines "st3 \<equiv> snd (call_Status d (call_TxSetLen d TxFrameLength
      (sent d (TxBuffer (loop_entry d h)) (snd (call_iTxVacancy d (loop_entry d h))))))"
  shows "iteration d (loop_entry d h) =
          (if s AND m \<noteq> 0
           then Inl (Inr (XST_FAILURE, call_IntClear d m (xil_printf (TransmissionError s) st3)))
           else Inr st3)"
proof -
  let ?st1 = "snd (call_iTxVacancy d (loop_entry d h))"
  let ?st2 = "call_TxSetLen d TxFrameLength (sent d (TxBuffer (loop_entry d h)) ?st1)"
  have v: "\<not> sint (256 :: u32) < int NUM_SAMPLES"
    by (simp add: NUM_SAMPLES_def)
  have m: "XLLF_INT_ERROR_MASK d = m"
    by (simp add: mock_def d_def)
  have "snd (hw ?st2) = s # ss"
    by (simp add: hw_loop_entry_mock d_def h_def)
  then have s: "call_Status d ?st2 = (s, st3)"
    unfolding st3_def d_def by (rule mock_Status)
  have a: "call_iTxVacancy d (loop_entry d h) = (256, ?st1)"
    unfolding d_def h_def by (rule mock_iTxVacancy)
  from iteration_split(2) [OF state_at_0 a v s] show ?thesis
    by (simp only: m)
qed

lemma mock_fault_run:
  "main (mock 0xF0200000) ([256], [0, 0x80000000]) = Some (Inr (XST_FAILURE,
     call_IntClear (mock 0xF0200000) 0xF0200000
       (xil_printf (TransmissionError 0x80000000)
         (snd (call_Status (mock 0xF0200000)
           (call_TxSetLen (mock 0xF0200000) TxFrameLength
             (sent (mock 0xF0200000) (TxBuffer (loop_entry (mock 0xF0200000) ([256], [0, 0x80000000])))
               (snd (call_iTxVacancy (mock 0xF0200000)
                 (loop_entry (mock 0xF0200000) ([256], [0, 0x80000000])))))))))))"
  using mock_pass [of "0xF0200000" "0x80000000" "[]"]
  by (intro main_ends(1) [OF state_at_0]) simp

lemma mock_second_pass:
  "state_at (mock 0) ([256], [0, 0]) (Suc 0) =
     Some (snd (call_Status (mock 0) (call_TxSetLen (mock 0) TxFrameLength
       (sent (mock 0) (TxBuffer (loop_entry (mock 0) ([256], [0, 0])))
         (snd (call_iTxVacancy (mock 0) (loop_entry (mock 0) ([256], [0, 0]))))))))"
  using mock_pass [of 0 0 "[]"] by (simp add: state_at_0 del: state_at.simps(1))

lemma steady_goes_on:
  assumes "state_at steady h n = Some st"
  shows "\<exists>st'. iteration steady st = Inr st'"
proof -
  obtain st1 where v: "call_iTxVacancy steady st = (512, st1)"
    by (simp add: call_iTxVacancy_def steady_def)
  obtain st3 where s: "call_Status steady (call_TxSetLen steady TxFrameLength
      (sent steady (TxBuffer st) st1)) = (0, st3)"
    by (simp add: call_Status_def steady_def)
  have "\<not> sint (512 :: u32) < int NUM_SAMPLES"
    by (simp add: NUM_SAMPLES_def)
  from iteration_split(2) [OF assms v this s] show ?thesis
    by simp
qed

lemma steady_runs_for_ever: "main steady h = None"
proof (cases "main steady h")
  case None
  then show ?thesis .
next
  case (Some y)
  from main_Some [OF this] obtain n st where "state_at steady h n = Some st"
    and "iteration steady st = Inl y"
    by blast
  with steady_goes_on show ?thesis
    by fastforce
qed

section \<open>The claims about main\<close>

subsection \<open>C1: the vacancy check\<close>

text \<open>
  C1. In every pass of the loop in \<open>main\<close>: when the vacancy register gives fewer than
  \<open>NUM_SAMPLES\<close> (256) words, \<open>main\<close> returns \<open>XST_FAILURE\<close> after printing the needed
  and the available word counts, and the only calls of that pass are the vacancy read and
  the print, so no word is put; when it gives exactly \<open>NUM_SAMPLES\<close>, the pass puts
  the whole buffer, sets the length and reads the status. The pass ends in this way exactly
  when \<open>Status < NUM_SAMPLES\<close>, \<open>Status\<close> being the register value held in an \<open>int\<close>.
\<close>

theorem vacancy_check:
  assumes "state_at d h n = Some st" and "call_iTxVacancy d st = (vacancy, st1)"
  shows "(unat vacancy < NUM_SAMPLES \<longrightarrow>
            main d h = Some (Inr (XST_FAILURE,
              xil_printf (NotEnoughSpace (int NUM_SAMPLES) (int (unat vacancy))) st1)) \<and>
            calls (xil_printf (NotEnoughSpace (int NUM_SAMPLES) (int (unat vacancy))) st1) =
              calls st @ [iTxVacancy, Xil_printf (NotEnoughSpace (int NUM_SAMPLES) (int (unat vacancy)))]) \<and>
         (unat vacancy = NUM_SAMPLES \<longrightarrow>
            tx_loop d 0 st1 = Inr (sent d (TxBuffer st) st1) \<and>
            length (TxBuffer st) = NUM_SAMPLES \<and>
            (\<exists>s st3. call_Status d (call_TxSetLen d TxFrameLength (sent d (TxBuffer st) st1)) = (s, st3) \<and>
               calls st3 = calls st @ iTxVacancy # map TxPutWord (TxBuffer st) @ [TxSetLen TxFrameLength, Status] \<and>
               iteration d st =
                 (if s AND XLLF_INT_ERROR_MASK d \<noteq> 0
                  then Inl (Inr (XST_FAILURE,
                         call_IntClear d (XLLF_INT_ERROR_MASK d) (xil_printf (TransmissionError s) st3)))
                  else Inr st3))) \<and>
         ((iteration d st = Inl (Inr (XST_FAILURE,
             xil_printf (NotEnoughSpace (int NUM_SAMPLES) (sint vacancy)) st1))) =
          (sint vacancy < int NUM_SAMPLES))"
proof (intro conjI impI)
  note sp = iteration_split [OF assms]
  show "(iteration d st = Inl (Inr (XST_FAILURE,
             xil_printf (NotEnoughSpace (int NUM_SAMPLES) (sint vacancy)) st1))) =
          (sint vacancy < int NUM_SAMPLES)"
    using assms by (rule not_enough_iff)
  {
    assume lt: "unat vacancy < NUM_SAMPLES"
    then have sv: "sint vacancy = int (unat vacancy)" by (intro sint_small) simp
    with lt have "sint vacancy < int NUM_SAMPLES" by (simp only: of_nat_less_iff)
    then have "iteration d st = Inl (Inr (XST_FAILURE,
        xil_printf (NotEnoughSpace (int NUM_SAMPLES) (int (unat vacancy))) st1))"
      using sp(1) sv by simp
    with assms(1) show "main d h = Some (Inr (XST_FAILURE,
        xil_printf (NotEnoughSpace (int NUM_SAMPLES) (int (unat vacancy))) st1))"
      by (rule main_ends(1))
    show "calls (xil_printf (NotEnoughSpace (int NUM_SAMPLES) (int (unat vacancy))) st1) =
        calls st @ [iTxVacancy, Xil_printf (NotEnoughSpace (int NUM_SAMPLES) (int (unat vacancy)))]"
      by (simp add: sp(4))
  }
  {
    assume eq: "unat vacancy = NUM_SAMPLES"
    then have sv: "sint vacancy = int (unat vacancy)" by (intro sint_small) simp
    with eq have ok: "\<not> sint vacancy < int NUM_SAMPLES" by (simp only: of_nat_less_iff)
    show "tx_loop d 0 st1 = Inr (sent d (TxBuffer st) st1)" by (rule sp(3))
    show "length (TxBuffer st) = NUM_SAMPLES" using assms(1) by (rule state_at_length)
    obtain s st3 where s: "call_Status d (call_TxSetLen d TxFrameLength (sent d (TxBuffer st) st1)) = (s, st3)"
      by (cases "call_Status d (call_TxSetLen d TxFrameLength (sent d (TxBuffer st) st1))")
    have "calls st3 = calls st @ iTxVacancy # map TxPutWord (TxBuffer st) @ [TxSetLen TxFrameLength, Status]"
      using after_commit_calls [OF s] by (simp add: sp(4))
    with s sp(2) [OF ok s]
    show "\<exists>s st3. call_Status d (call_TxSetLen d TxFrameLength (sent d (TxBuffer st) st1)) = (s, st3) \<and>
               calls st3 = calls st @ iTxVacancy # map TxPutWord (TxBuffer st) @ [TxSetLen TxFrameLength, Status] \<and>
               iteration d st =
                 (if s AND XLLF_INT_ERROR_MASK d \<noteq> 0
                  then Inl (Inr (XST_FAILURE,
                         call_IntClear d (XLLF_INT_ERROR_MASK d) (xil_printf (TransmissionError s) st3)))
                  else Inr st3)"
      by blast
  }
qed


theorem vacancy_check_witness:
  "unat (255 :: u32) < NUM_SAMPLES \<and>
   main (mock 0) ([255], []) = Some (Inr (XST_FAILURE,
     xil_printf (NotEnoughSpace (int NUM_SAMPLES) 255)
       (snd (call_iTxVacancy (mock 0) (loop_entry (mock 0) ([255], [])))))) \<and>
   unat (256 :: u32) = NUM_SAMPLES \<and>
   tx_loop (mock 0) 0 (snd (call_iTxVacancy (mock 0) (loop_entry (mock 0) ([256], [])))) =
     Inr (sent (mock 0) (TxBuffer (loop_entry (mock 0) ([256], [])))
       (snd (call_iTxVacancy (mock 0) (loop_entry (mock 0) ([256], [])))))"
proof -
  have lt: "unat (255 :: u32) < NUM_SAMPLES" and eq: "unat (256 :: u32) = NUM_SAMPLES"
    by (simp_all add: NUM_SAMPLES_def)
  note a = vacancy_check [OF state_at_0 mock_iTxVacancy [where m = 0 and v = 255 and vs = "[]" and ss = "[]"]]
  note b = vacancy_check [OF state_at_0 mock_iTxVacancy [where m = 0 and v = 256 and vs = "[]" and ss = "[]"]]
  from a lt have "main (mock 0) ([255], []) = Some (Inr (XST_FAILURE,
     xil_printf (NotEnoughSpace (int NUM_SAMPLES) 255)
       (snd (call_iTxVacancy (mock 0) (loop_entry (mock 0) ([255], []))))))"
    by simp
  moreover from b eq
  have "tx_loop (mock 0) 0 (snd (call_iTxVacancy (mock 0) (loop_entry (mock 0) ([256], [])))) =
     Inr (sent (mock 0) (TxBuffer (loop_entry (mock 0) ([256], [])))
       (snd (call_iTxVacancy (mock 0) (loop_entry (mock 0) ([256], [])))))"
    by blast
  ultimately show ?thesis
    using lt eq by blast
qed



subsection \<open>C2: the fault path\<close>

text \<open>
  C2. In every pass of the loop in which the status read after \<open>XLlFifo_TxSetLen\<close> has a
  bit of \<open>XLLF_INT_ERROR_MASK\<close> set, \<open>main\<close> prints the status, calls
  \<open>XLlFifo_IntClear\<close> with exactly that mask and returns \<open>XST_FAILURE\<close>; there is no
  further pass.
\<close>

theorem fault_path:
  assumes "state_at d h n = Some st"
    and "call_iTxVacancy d st = (vacancy, st1)"
    and "\<not> sint vacancy < int NUM_SAMPLES"
    and "call_Status d (call_TxSetLen d TxFrameLength (sent d (TxBuffer st) st1)) = (s, st3)"
    and "s AND XLLF_INT_ERROR_MASK d \<noteq> 0"
  shows "main d h = Some (Inr (XST_FAILURE,
           call_IntClear d (XLLF_INT_ERROR_MASK d) (xil_printf (TransmissionError s) st3))) \<and>
         calls (call_IntClear d (XLLF_INT_ERROR_MASK d) (xil_printf (TransmissionError s) st3)) =
           calls st3 @ [Xil_printf (TransmissionError s), IntClear (XLLF_INT_ERROR_MASK d)] \<and>
         hw (call_IntClear d (XLLF_INT_ERROR_MASK d) (xil_printf (TransmissionError s) st3)) =
           XLlFifo_IntClear d (XLLF_INT_ERROR_MASK d) (hw st3) \<and>
         state_at d h (Suc n) = None"
proof -
  have "iteration d st = Inl (Inr (XST_FAILURE,
      call_IntClear d (XLLF_INT_ERROR_MASK d) (xil_printf (TransmissionError s) st3)))"
    using iteration_split(2) [OF assms(1,2,3,4)] assms(5) by simp
  from main_ends [OF assms(1) this] show ?thesis
    by (simp add: call_IntClear_def xil_printf_def)
qed

theorem fault_path_witness:
  "\<not> sint (256 :: u32) < int NUM_SAMPLES \<and>
   (0x80000000 :: u32) AND XLLF_INT_ERROR_MASK (mock 0xF0200000) \<noteq> 0 \<and>
   main (mock 0xF0200000) ([256], [0, 0x80000000]) = Some (Inr (XST_FAILURE,
     call_IntClear (mock 0xF0200000) 0xF0200000
       (xil_printf (TransmissionError 0x80000000)
         (snd (call_Status (mock 0xF0200000)
           (call_TxSetLen (mock 0xF0200000) TxFrameLength
             (sent (mock 0xF0200000) (TxBuffer (loop_entry (mock 0xF0200000) ([256], [0, 0x80000000])))
               (snd (call_iTxVacancy (mock 0xF0200000)
                 (loop_entry (mock 0xF0200000) ([256], [0, 0x80000000]))))))))))) \<and>
   state_at (mock 0xF0200000) ([256], [0, 0x80000000]) (Suc 0) = None"
proof -
  let ?d = "mock 0xF0200000 :: (u32 list \<times> u32 list) driver"
  let ?h = "([256], [0, 0x80000000]) :: u32 list \<times> u32 list"
  let ?st1 = "snd (call_iTxVacancy ?d (loop_entry ?d ?h))"
  let ?st2 = "call_TxSetLen ?d TxFrameLength (sent ?d (TxBuffer (loop_entry ?d ?h)) ?st1)"
  have v: "\<not> sint (256 :: u32) < int NUM_SAMPLES"
    by (simp add: NUM_SAMPLES_def)
  have m: "XLLF_INT_ERROR_MASK ?d = 0xF0200000"
    by (simp add: mock_def)
  have f: "(0x80000000 :: u32) AND XLLF_INT_ERROR_MASK ?d \<noteq> 0"
    by (simp add: m)
  have "snd (hw ?st2) = [0x80000000]"
    by (simp add: hw_loop_entry_mock)
  then have s: "call_Status ?d ?st2 = (0x80000000, snd (call_Status ?d ?st2))"
    by (rule mock_Status)
  from fault_path [OF state_at_0 mock_iTxVacancy v s f] v f show ?thesis
    by (simp only: m) simp
qed



subsection \<open>C4: the frame\<close>

text \<open>
  C4. In every pass of the loop in which the vacancy check passes, the calls are: the
  vacancy read, then \<open>XLlFifo_TxPutWord\<close> once for each of \<open>TxBuffer[0]\<close>, ...,
  \<open>TxBuffer[NUM_SAMPLES - 1]\<close> in this order, then one \<open>XLlFifo_TxSetLen\<close> with
  \<open>NUM_SAMPLES * 4\<close> bytes, and only then the status read.
\<close>

theorem push_order:
  assumes "state_at d h n = Some st"
    and "call_iTxVacancy d st = (vacancy, st1)"
    and "\<not> sint vacancy < int NUM_SAMPLES"
  shows "length (TxBuffer st) = NUM_SAMPLES \<and>
         unat TxFrameLength = NUM_SAMPLES * 4 \<and>
         tx_loop d 0 st1 = Inr (sent d (TxBuffer st) st1) \<and>
         (\<exists>s st3.
            call_Status d (call_TxSetLen d TxFrameLength (sent d (TxBuffer st) st1)) = (s, st3) \<and>
            calls st3 =
              calls st @ [iTxVacancy] @ map (\<lambda>i. TxPutWord (TxBuffer st ! i)) [0..<NUM_SAMPLES] @
                [TxSetLen TxFrameLength, Status] \<and>
            (iteration d st = Inr st3 \<or>
             iteration d st = Inl (Inr (XST_FAILURE,
               call_IntClear d (XLLF_INT_ERROR_MASK d) (xil_printf (TransmissionError s) st3)))))"
proof -
  note len = state_at_length [OF assms(1)]
  obtain s st3 where s: "call_Status d (call_TxSetLen d TxFrameLength (sent d (TxBuffer st) st1)) = (s, st3)"
    by (cases "call_Status d (call_TxSetLen d TxFrameLength (sent d (TxBuffer st) st1))")
  have "map (\<lambda>i. TxPutWord (TxBuffer st ! i)) [0..<length (TxBuffer st)] =
      map TxPutWord (TxBuffer st)"
    by (rule nth_equalityI) simp_all
  then have "map (\<lambda>i. TxPutWord (TxBuffer st ! i)) [0..<NUM_SAMPLES] = map TxPutWord (TxBuffer st)"
    by (simp only: len)
  then have c: "calls st3 =
      calls st @ [iTxVacancy] @ map (\<lambda>i. TxPutWord (TxBuffer st ! i)) [0..<NUM_SAMPLES] @
        [TxSetLen TxFrameLength, Status]"
    using after_commit_calls [OF s] iteration_split(4) [OF assms(1,2)] by simp
  have "iteration d st = Inr st3 \<or>
        iteration d st = Inl (Inr (XST_FAILURE,
          call_IntClear d (XLLF_INT_ERROR_MASK d) (xil_printf (TransmissionError s) st3)))"
    using iteration_split(2) [OF assms s] by (simp split: if_splits)
  with s c len TxFrameLength_bytes(1) iteration_split(3) [OF assms(1,2)] show ?thesis
    by blast
qed


theorem push_order_witness:
  "\<not> sint (256 :: u32) < int NUM_SAMPLES \<and>
   length (TxBuffer (loop_entry (mock 0) ([256], []))) = NUM_SAMPLES \<and>
   unat TxFrameLength = NUM_SAMPLES * 4 \<and>
   tx_loop (mock 0) 0 (snd (call_iTxVacancy (mock 0) (loop_entry (mock 0) ([256], [])))) =
     Inr (sent (mock 0) (TxBuffer (loop_entry (mock 0) ([256], [])))
       (snd (call_iTxVacancy (mock 0) (loop_entry (mock 0) ([256], []))))) \<and>
   (\<exists>s st3.
      call_Status (mock 0) (call_TxSetLen (mock 0) TxFrameLength
        (sent (mock 0) (TxBuffer (loop_entry (mock 0) ([256], [])))
          (snd (call_iTxVacancy (mock 0) (loop_entry (mock 0) ([256], [])))))) = (s, st3) \<and>
      calls st3 =
        calls (loop_entry (mock 0) ([256], [])) @ [iTxVacancy] @
          map (\<lambda>i. TxPutWord (TxBuffer (loop_entry (mock 0) ([256], [])) ! i)) [0..<NUM_SAMPLES] @
          [TxSetLen TxFrameLength, Status] \<and>
      (iteration (mock 0) (loop_entry (mock 0) ([256], [])) = Inr st3 \<or>
       iteration (mock 0) (loop_entry (mock 0) ([256], [])) = Inl (Inr (XST_FAILURE,
         call_IntClear (mock 0) (XLLF_INT_ERROR_MASK (mock 0))
           (xil_printf (TransmissionError s) st3)))))"
proof -
  have v: "\<not> sint (256 :: u32) < int NUM_SAMPLES"
    by (simp add: NUM_SAMPLES_def)
  from push_order [OF state_at_0 mock_iTxVacancy v, where ?m1 = 0 and ?vs1 = "[]" and ?ss1 = "[]"] v
  show ?thesis
    by (rule_tac conjI)
qed


subsection \<open>C5: no successful end\<close>

text \<open>
  C5. \<open>main\<close> either runs for ever or returns \<open>XST_FAILURE\<close> by exactly one of the two
  error paths: the last call is the print of the missing space, or the last calls are the
  print of the transmission error and the clearing of the error bits. It never returns
  \<open>XST_SUCCESS\<close>. (Both happen: with the scripted FIFO \<open>main\<close> returns, see
  \<open>mock_fault_run\<close>, and with the FIFO that always has room it runs for ever, see
  \<open>steady_runs_for_ever\<close>.)
\<close>

theorem no_success:
  "main d h = None \<or>
   (\<exists>st'. main d h = Some (Inr (XST_FAILURE, st')) \<and>
      ((\<exists>cs available. calls st' = cs @ [Xil_printf (NotEnoughSpace (int NUM_SAMPLES) available)]) \<noteq>
       (\<exists>cs s. calls st' =
          cs @ [Xil_printf (TransmissionError s), IntClear (XLLF_INT_ERROR_MASK d)])))"
proof (cases "main d h")
  case None
  then show ?thesis by simp
next
  case (Some y)
  from main_Some [OF Some]
  obtain n st where st: "state_at d h n = Some st" and it: "iteration d st = Inl y"
    by blast
  obtain vacancy st1 where v: "call_iTxVacancy d st = (vacancy, st1)"
    by (cases "call_iTxVacancy d st")
  obtain s st3 where s: "call_Status d (call_TxSetLen d TxFrameLength (sent d (TxBuffer st) st1)) = (s, st3)"
    by (cases "call_Status d (call_TxSetLen d TxFrameLength (sent d (TxBuffer st) st1))")
  show ?thesis
  proof (cases "sint vacancy < int NUM_SAMPLES")
    case True
    with it iteration_split(1) [OF st v]
    have "y = Inr (XST_FAILURE, xil_printf (NotEnoughSpace (int NUM_SAMPLES) (sint vacancy)) st1)"
      by simp
    then show ?thesis
      using Some by simp
  next
    case False
    with it iteration_split(2) [OF st v False s]
    have "y = Inr (XST_FAILURE,
        call_IntClear d (XLLF_INT_ERROR_MASK d) (xil_printf (TransmissionError s) st3))"
      by (simp split: if_splits)
    then show ?thesis
      using Some by simp
  qed
qed



subsection \<open>C9: the buffer is only read\<close>

text \<open>
  C9. At the start of every pass of the loop \<open>TxBuffer\<close> holds what \<open>GenerateRampWave\<close>
  stored before the loop, the pass leaves it as it is, whether the loop goes on or \<open>main\<close>
  returns, and the words put into the FIFO are those.
\<close>

theorem buffer_unchanged:
  assumes "state_at d h n = Some st"
  shows "GenerateRampWave (TxBuffer (startup d h)) (of_nat NUM_SAMPLES) = Inr (TxBuffer st) \<and>
         TxBuffer st = TxBuffer (loop_entry d h) \<and>
         (case iteration d st of
            Inr st' \<Rightarrow> TxBuffer st' = TxBuffer st
          | Inl (Inr (r, st')) \<Rightarrow> TxBuffer st' = TxBuffer st
          | Inl (Inl f) \<Rightarrow> False) \<and>
         tx_loop d 0 (snd (call_iTxVacancy d st)) =
           Inr (sent d (TxBuffer (loop_entry d h)) (snd (call_iTxVacancy d st)))"
proof -
  note b = state_at_TxBuffer [OF assms]
  note len = state_at_length [OF assms]
  obtain vacancy st1 where v: "call_iTxVacancy d st = (vacancy, st1)"
    by (cases "call_iTxVacancy d st")
  obtain s st3 where s: "call_Status d (call_TxSetLen d TxFrameLength (sent d (TxBuffer st) st1)) = (s, st3)"
    by (cases "call_Status d (call_TxSetLen d TxFrameLength (sent d (TxBuffer st) st1))")
  have st1: "st1 = snd (call_iTxVacancy d st)" using v by simp
  then have b1: "TxBuffer st1 = TxBuffer st" by simp
  have "st3 = snd (call_Status d (call_TxSetLen d TxFrameLength (sent d (TxBuffer st) st1)))"
    using s by simp
  then have b3: "TxBuffer st3 = TxBuffer st" using b1 by simp
  have 1: "GenerateRampWave (TxBuffer (startup d h)) (of_nat NUM_SAMPLES) = Inr (TxBuffer st)"
    by (simp only: generate_in_main b)
  have 2: "TxBuffer st = TxBuffer (loop_entry d h)"
    by (simp add: b loop_entry_def)
  have 3: "(case iteration d st of
            Inr st' \<Rightarrow> TxBuffer st' = TxBuffer st
          | Inl (Inr (r, st')) \<Rightarrow> TxBuffer st' = TxBuffer st
          | Inl (Inl f) \<Rightarrow> False)"
    using b1 b3 by (simp add: iteration_eq [OF len] v s)
  have 4: "tx_loop d 0 (snd (call_iTxVacancy d st)) =
           Inr (sent d (TxBuffer (loop_entry d h)) (snd (call_iTxVacancy d st)))"
    using iteration_split(3) [OF assms v] by (simp add: st1 2)
  from 1 2 3 4 show ?thesis by blast
qed

theorem buffer_unchanged_witness:
  "state_at (mock 0) ([256], [0, 0]) (Suc 0) =
     Some (snd (call_Status (mock 0) (call_TxSetLen (mock 0) TxFrameLength
       (sent (mock 0) (TxBuffer (loop_entry (mock 0) ([256], [0, 0])))
         (snd (call_iTxVacancy (mock 0) (loop_entry (mock 0) ([256], [0, 0])))))))) \<and>
   GenerateRampWave (TxBuffer (startup (mock 0) ([256], [0, 0]))) (of_nat NUM_SAMPLES) =
     Inr (TxBuffer (snd (call_Status (mock 0) (call_TxSetLen (mock 0) TxFrameLength
       (sent (mock 0) (TxBuffer (loop_entry (mock 0) ([256], [0, 0])))
         (snd (call_iTxVacancy (mock 0) (loop_entry (mock 0) ([256], [0, 0]))))))))) \<and>
   TxBuffer (snd (call_Status (mock 0) (call_TxSetLen (mock 0) TxFrameLength
       (sent (mock 0) (TxBuffer (loop_entry (mock 0) ([256], [0, 0])))
         (snd (call_iTxVacancy (mock 0) (loop_entry (mock 0) ([256], [0, 0])))))))) =
     TxBuffer (loop_entry (mock 0) ([256], [0, 0]))"
  using buffer_unchanged [OF mock_second_pass] mock_second_pass
  by blast


subsection \<open>C10: a transmission error comes after the whole frame\<close>

text \<open>
  C10. When \<open>main\<close> returns after printing a transmission error, the calls of the last
  pass are the vacancy read, the \<open>NUM_SAMPLES\<close> words of the buffer, the frame length,
  the status read, the print and the clearing of the error bits: the frame was put and
  committed before the error was seen, and nothing but the clearing follows.
\<close>

theorem fault_after_commit:
  assumes "main d h = Some (Inr (r, st'))"
    and "Xil_printf (TransmissionError s) \<in> set (calls st')"
  shows "r = XST_FAILURE \<and> s AND XLLF_INT_ERROR_MASK d \<noteq> 0 \<and>
         length (TxBuffer (loop_entry d h)) = NUM_SAMPLES \<and>
         (\<exists>cs. calls st' =
            cs @ [iTxVacancy] @ map TxPutWord (TxBuffer (loop_entry d h)) @
              [TxSetLen TxFrameLength, Status, Xil_printf (TransmissionError s),
               IntClear (XLLF_INT_ERROR_MASK d)])"
proof -
  from main_Some [OF assms(1)]
  obtain n st where st: "state_at d h n = Some st" and it: "iteration d st = Inl (Inr (r, st'))"
    by blast
  note none = no_error_printed [OF st, of s]
  have b: "TxBuffer st = TxBuffer (loop_entry d h)"
    using state_at_TxBuffer [OF st] by (simp add: loop_entry_def)
  obtain vacancy st1 where v: "call_iTxVacancy d st = (vacancy, st1)"
    by (cases "call_iTxVacancy d st")
  obtain s0 st3 where s: "call_Status d (call_TxSetLen d TxFrameLength (sent d (TxBuffer st) st1)) = (s0, st3)"
    by (cases "call_Status d (call_TxSetLen d TxFrameLength (sent d (TxBuffer st) st1))")
  note c1 = iteration_split(4) [OF st v]
  have ok: "\<not> sint vacancy < int NUM_SAMPLES"
  proof
    assume "sint vacancy < int NUM_SAMPLES"
    with it iteration_split(1) [OF st v]
    have "st' = xil_printf (NotEnoughSpace (int NUM_SAMPLES) (sint vacancy)) st1"
      by simp
    then have "calls st' = calls st @ [iTxVacancy, Xil_printf (NotEnoughSpace (int NUM_SAMPLES) (sint vacancy))]"
      by (simp add: c1)
    with assms(2) none show False by simp
  qed
  from it iteration_split(2) [OF st v ok s]
  have f: "s0 AND XLLF_INT_ERROR_MASK d \<noteq> 0" and r: "r = XST_FAILURE"
    and st': "st' = call_IntClear d (XLLF_INT_ERROR_MASK d) (xil_printf (TransmissionError s0) st3)"
    by (simp_all split: if_splits)
  have c: "calls st' = calls st @ [iTxVacancy] @ map TxPutWord (TxBuffer (loop_entry d h)) @
      [TxSetLen TxFrameLength, Status, Xil_printf (TransmissionError s0),
       IntClear (XLLF_INT_ERROR_MASK d)]"
    using after_commit_calls [OF s] by (simp add: st' c1 b)
  with assms(2) none have "s = s0" by auto
  with f r c state_at_length [OF st] b show ?thesis
    by auto
qed


theorem fault_after_commit_witness:
  "main (mock 0xF0200000) ([256], [0, 0x80000000]) = Some (Inr (XST_FAILURE,
     call_IntClear (mock 0xF0200000) 0xF0200000
       (xil_printf (TransmissionError 0x80000000)
         (snd (call_Status (mock 0xF0200000)
           (call_TxSetLen (mock 0xF0200000) TxFrameLength
             (sent (mock 0xF0200000) (TxBuffer (loop_entry (mock 0xF0200000) ([256], [0, 0x80000000])))
               (snd (call_iTxVacancy (mock 0xF0200000)
                 (loop_entry (mock 0xF0200000) ([256], [0, 0x80000000]))))))))))) \<and>
   Xil_printf (TransmissionError 0x80000000) \<in> set (calls
     (call_IntClear (mock 0xF0200000) 0xF0200000
       (xil_printf (TransmissionError 0x80000000)
         (snd (call_Status (mock 0xF0200000)
           (call_TxSetLen (mock 0xF0200000) TxFrameLength
             (sent (mock 0xF0200000) (TxBuffer (loop_entry (mock 0xF0200000) ([256], [0, 0x80000000])))
               (snd (call_iTxVacancy (mock 0xF0200000)
                 (loop_entry (mock 0xF0200000) ([256], [0, 0x80000000]))))))))))) \<and>
   (\<exists>cs. calls
     (call_IntClear (mock 0xF0200000) 0xF0200000
       (xil_printf (TransmissionError 0x80000000)
         (snd (call_Status (mock 0xF0200000)
           (call_TxSetLen (mock 0xF0200000) TxFrameLength
             (sent (mock 0xF0200000) (TxBuffer (loop_entry (mock 0xF0200000) ([256], [0, 0x80000000])))
               (snd (call_iTxVacancy (mock 0xF0200000)
                 (loop_entry (mock 0xF0200000) ([256], [0, 0x80000000]))))))))))
      = cs @ [iTxVacancy] @
          map TxPutWord (TxBuffer (loop_entry (mock 0xF0200000) ([256], [0, 0x80000000]))) @
          [TxSetLen TxFrameLength, Status, Xil_printf (TransmissionError 0x80000000),
           IntClear (XLLF_INT_ERROR_MASK (mock 0xF0200000))])"
proof -
  let ?st = "call_IntClear (mock 0xF0200000) 0xF0200000
       (xil_printf (TransmissionError 0x80000000)
         (snd (call_Status (mock 0xF0200000)
           (call_TxSetLen (mock 0xF0200000) TxFrameLength
             (sent (mock 0xF0200000) (TxBuffer (loop_entry (mock 0xF0200000) ([256], [0, 0x80000000])))
               (snd (call_iTxVacancy (mock 0xF0200000)
                 (loop_entry (mock 0xF0200000) ([256], [0, 0x80000000])))))))))"
  have mem: "Xil_printf (TransmissionError 0x80000000) \<in> set (calls ?st)"
    by simp
  from fault_after_commit [OF mock_fault_run mem] mock_fault_run mem show ?thesis
    by blast
qed


section \<open>The claims about GenerateRampWave\<close>

subsection \<open>C3: the contents of the buffer\<close>

text \<open>
  C3, as amended. For every \<open>NumSamples\<close> from 3 on (and a buffer of at least that many
  words) \<open>GenerateRampWave\<close> returns normally and fills the first \<open>NumSamples\<close>
  elements: the last of them is 0; the one at any other index \<open>j\<close> is the amplitude
  \<open>clamp(floor(j * scale + 0.5), 0, 16383)\<close> shifted left by 18, where
  \<open>scale = 16383 / (NumSamples - 2)\<close> and every operation is rounded to single
  precision as in the code; so the element shifted right by 18 is the amplitude, at most
  16383, and its low 18 bits are zero. For \<open>NumSamples = 256\<close> element 0 is
  \<open>0x00000000\<close>, element 127 is \<open>0x80000000\<close> and element 255 is \<open>0x00000000\<close>.
\<close>

theorem ramp_contents:
  assumes "3 \<le> N" and "unat N \<le> length B"
  shows "\<exists>r. GenerateRampWave B N = Inr r \<and> length r = length B \<and>
           r ! (unat N - 1) = 0 \<and>
           (\<forall>j < unat N - 1. \<exists>a.
              spec_amplitude N (of_nat j) = Inr a \<and> r ! j = push_bit 18 a \<and>
              drop_bit 18 (r ! j) = a \<and> a \<le> 16383 \<and> r ! j AND 0x3FFFF = 0) \<and>
           (N = 256 \<longrightarrow> r ! 0 = 0 \<and> r ! 127 = 0x80000000 \<and> r ! 255 = 0)"
proof (intro exI conjI allI impI)
  let ?r = "ramp N @ drop (unat N) B"
  have N: "0 < unat N" using assms(1) by (simp add: word_le_nat_alt)
  show "GenerateRampWave B N = Inr ?r"
    using assms by (rule GenerateRampWave_ramp)
  show "length ?r = length B"
    using assms(2) by (simp add: length_ramp)
  show "?r ! (unat N - 1) = 0"
    using N by (simp add: nth_ramp ramp_word_def)
  {
    fix j assume j: "j < unat N - 1"
    then have "?r ! j = push_bit 18 (amplitude_word N j)"
      by (simp add: nth_ramp ramp_word_amplitude)
    with spec_amplitude_word [OF assms(1) j] amplitude_word_le [of N j]
    show "spec_amplitude N (of_nat j) = Inr (amplitude_word N j)"
      and "?r ! j = push_bit 18 (amplitude_word N j)"
      and "drop_bit 18 (?r ! j) = amplitude_word N j"
      and "amplitude_word N j \<le> 16383"
      and "?r ! j AND 0x3FFFF = 0"
      by (simp_all add: shift_back shift_low_bits)
  }
  {
    assume "N = 256"
    then show "?r ! 0 = 0" and "?r ! 127 = 0x80000000" and "?r ! 255 = 0"
      by (simp_all add: nth_ramp ramp_word_256)
  }
qed


text \<open>
  The claim as stated fails at \<open>NumSamples = 2\<close>, where the scale is \<open>16383 / 0\<close>, the
  product for index 0 is not a number and its conversion to an integer is undefined; and,
  read in exact arithmetic, at \<open>NumSamples = 16\<close>, where element 7 is \<open>8191 << 18\<close> and
  the exact formula gives \<open>8192 << 18\<close>.
\<close>

theorem ramp_contents_counterexample:
  "GenerateRampWave [0, 0] 2 = Inl UndefinedConversion \<and>
   GenerateRampWave (replicate 16 0) 16 =
     Inr [0, 0x12480000, 0x24900000, 0x36DC0000, 0x49240000, 0x5B6C0000, 0x6DB40000, 0x7FFC0000,
          0x92480000, 0xA4900000, 0xB6D80000, 0xC9200000, 0xDB6C0000, 0xEDB40000, 0xFFFC0000, 0] \<and>
   push_bit 18 (word_of_int (exact_amplitude 16 7)) = (0x80000000 :: u32)"
  by code_simp

theorem ramp_contents_witness:
  "(3 :: u32) \<le> 256 \<and> unat (256 :: u32) \<le> length (replicate 256 (0 :: u32)) \<and>
   (\<exists>r. GenerateRampWave (replicate 256 0) 256 = Inr r \<and> length r = 256 \<and>
      r ! 0 = 0 \<and> r ! 127 = 0x80000000 \<and> r ! 255 = 0 \<and>
      spec_amplitude 256 127 = Inr 8192 \<and> r ! 127 = push_bit 18 8192 \<and>
      drop_bit 18 (r ! 127) = 8192 \<and> r ! 127 AND 0x3FFFF = 0)"
proof -
  have a: "(3 :: u32) \<le> 256" and b: "unat (256 :: u32) \<le> length (replicate 256 (0 :: u32))"
    by simp_all
  from ramp_contents [OF a b] obtain r where r: "GenerateRampWave (replicate 256 0) 256 = Inr r"
    and l: "length r = length (replicate 256 (0 :: u32))"
    and j: "\<forall>j < unat (256 :: u32) - 1. \<exists>a.
              spec_amplitude 256 (of_nat j) = Inr a \<and> r ! j = push_bit 18 a \<and>
              drop_bit 18 (r ! j) = a \<and> a \<le> 16383 \<and> r ! j AND 0x3FFFF = 0"
    and v: "r ! 0 = 0 \<and> r ! 127 = 0x80000000 \<and> r ! 255 = 0"
    by blast
  have s: "spec_amplitude 256 127 = Inr 8192"
    by code_simp
  have "(127 :: nat) < unat (256 :: u32) - 1" by simp
  with j have "\<exists>a. spec_amplitude 256 (of_nat 127) = Inr a \<and> r ! 127 = push_bit 18 a \<and>
              drop_bit 18 (r ! 127) = a \<and> a \<le> 16383 \<and> r ! 127 AND 0x3FFFF = 0"
    by blast
  with s have "r ! 127 = push_bit 18 8192 \<and> drop_bit 18 (r ! 127) = 8192 \<and> r ! 127 AND 0x3FFFF = 0"
    by simp
  with a b r l v s show ?thesis
    by (intro conjI exI [of _ r]) simp_all
qed


subsection \<open>C7: the ramp does not fall\<close>

text \<open>
  C7. For every \<open>NumSamples\<close> from 3 on, the amplitudes of two neighbouring indices
  \<open>j\<close> and \<open>j + 1\<close>, both before the last index (\<open>j + 1 \<le> NumSamples - 2\<close>), satisfy
  \<open>amplitude(j) \<le> amplitude(j + 1)\<close>.
\<close>

theorem ramp_monotone:
  assumes "3 \<le> N" and "unat N \<le> length B" and "j + 1 \<le> unat N - 2"
  shows "\<exists>r a b. GenerateRampWave B N = Inr r \<and>
           spec_amplitude N (of_nat j) = Inr a \<and> spec_amplitude N (of_nat (j + 1)) = Inr b \<and>
           drop_bit 18 (r ! j) = a \<and> drop_bit 18 (r ! (j + 1)) = b \<and> a \<le> b"
proof (intro exI conjI)
  let ?r = "ramp N @ drop (unat N) B"
  from assms(3) have j: "j < unat N - 1" and j1: "j + 1 < unat N - 1" by simp_all
  show "GenerateRampWave B N = Inr ?r"
    using assms(1,2) by (rule GenerateRampWave_ramp)
  show "spec_amplitude N (of_nat j) = Inr (amplitude_word N j)"
    using assms(1) j by (rule spec_amplitude_word)
  show "spec_amplitude N (of_nat (j + 1)) = Inr (amplitude_word N (j + 1))"
    using assms(1) j1 by (rule spec_amplitude_word)
  show "drop_bit 18 (?r ! j) = amplitude_word N j"
    using j amplitude_word_le [of N j] by (simp add: nth_ramp ramp_word_amplitude shift_back)
  show "drop_bit 18 (?r ! (j + 1)) = amplitude_word N (j + 1)"
    using j1 amplitude_word_le [of N "j + 1"] by (simp add: nth_ramp ramp_word_amplitude shift_back)
  show "amplitude_word N j \<le> amplitude_word N (j + 1)"
    using assms(1) _ j1 by (rule amplitude_word_mono) simp
qed


theorem ramp_monotone_witness:
  "(3 :: u32) \<le> 256 \<and> unat (256 :: u32) \<le> length (replicate 256 (0 :: u32)) \<and>
   (126 :: nat) + 1 \<le> unat (256 :: u32) - 2 \<and>
   (\<exists>r a b. GenerateRampWave (replicate 256 0) 256 = Inr r \<and>
      spec_amplitude 256 (of_nat 126) = Inr a \<and> spec_amplitude 256 (of_nat (126 + 1)) = Inr b \<and>
      drop_bit 18 (r ! 126) = a \<and> drop_bit 18 (r ! (126 + 1)) = b \<and> a \<le> b)"
proof -
  have a: "(3 :: u32) \<le> 256" and b: "unat (256 :: u32) \<le> length (replicate 256 (0 :: u32))"
    and c: "(126 :: nat) + 1 \<le> unat (256 :: u32) - 2"
    by simp_all
  from ramp_monotone [OF a b c] a b c show ?thesis
    by (intro conjI)
qed


subsection \<open>C6: lengths below 3\<close>

text \<open>
  C6, as amended. \<open>GenerateRampWave\<close> has no check of \<open>NumSamples\<close> and no
  \<open>InvalidLength\<close> result. With \<open>NumSamples = 0\<close> it returns normally and stores
  nothing. With \<open>NumSamples = 1\<close> it stores 0 in element 0 and returns normally. With
  \<open>NumSamples = 2\<close> the scale is \<open>16383 / 0\<close>, which is plus infinity, and the pass for
  index 0 converts \<open>0 * infinity + 0.5\<close>, which is not a number, to an integer: that
  conversion is undefined, and it comes before the first store.
\<close>

theorem no_length_check:
  "GenerateRampWave B 0 = Inr B \<and>
   GenerateRampWave (x # B) 1 = Inr (0 # B) \<and>
   f32_div (u32_to_f32 MAX_COUNT) (u32_to_f32 (2 - 2)) = PlusInf \<and>
   shiftedValue_at PlusInf 2 0 = Inl UndefinedConversion \<and>
   GenerateRampWave B 2 = Inl UndefinedConversion"
proof (intro conjI)
  show "GenerateRampWave B 0 = Inr B"
    unfolding GenerateRampWave_def Let_def by (subst ramp_loop_unfold) simp
  show "GenerateRampWave (x # B) 1 = Inr (0 # B)"
    unfolding GenerateRampWave_def Let_def
    by (subst ramp_loop_unfold, simp add: shiftedValue_at_def, subst ramp_loop_unfold, simp)
  have z: "u32_to_f32 0 = Finite 0"
    by (simp add: u32_to_f32_finite rnd_def)
  have m: "u32_to_f32 MAX_COUNT = Finite 16383"
    by (simp add: u32_to_f32_finite rnd_values MAX_COUNT_def)
  show sf: "f32_div (u32_to_f32 MAX_COUNT) (u32_to_f32 (2 - 2)) = PlusInf"
    by (simp add: z m)
  show sv: "shiftedValue_at PlusInf 2 0 = Inl UndefinedConversion"
    by (simp add: shiftedValue_at_def z)
  show "GenerateRampWave B 2 = Inl UndefinedConversion"
    unfolding GenerateRampWave_def Let_def sf by (subst ramp_loop_unfold) (simp add: sv)
qed


text \<open>
  The claim as stated fails at \<open>NumSamples = 1\<close>, where the call returns normally after
  storing element 0, and at \<open>NumSamples = 2\<close>, where the division by zero is carried out.
\<close>

theorem no_length_check_counterexample:
  "GenerateRampWave [7] 1 = Inr [0] \<and>
   GenerateRampWave [7, 7] 2 = Inl UndefinedConversion \<and>
   f32_div (u32_to_f32 MAX_COUNT) (u32_to_f32 (2 - 2)) = PlusInf"
  by code_simp


subsection \<open>C8: the same ramp every time\<close>

text \<open>
  C8. When a call of \<open>GenerateRampWave\<close> returns normally, a second call with the same
  \<open>NumSamples\<close> on the buffer it has filled returns normally with the same buffer; a call
  on a buffer of the same length with any other contents returns normally with the same
  first \<open>NumSamples\<close> elements; and the call changes nothing but these elements: the
  length of the buffer and the elements from \<open>NumSamples\<close> on stay as they were.
\<close>

theorem generate_idempotent:
  assumes "GenerateRampWave B N = Inr r"
  shows "GenerateRampWave r N = Inr r \<and> length r = length B \<and>
         drop (unat N) r = drop (unat N) B \<and>
         (\<forall>B'. length B' = length B \<longrightarrow>
            (\<exists>r'. GenerateRampWave B' N = Inr r' \<and> take (unat N) r' = take (unat N) r))"
proof -
  define sf where "sf = f32_div (u32_to_f32 MAX_COUNT) (u32_to_f32 (N - 2))"
  have g: "GenerateRampWave X N = ramp_loop sf N 0 X" for X
    by (simp add: GenerateRampWave_def sf_def)
  from assms have "ramp_loop sf N 0 B = Inr r" by (simp only: g)
  from ramp_loop_Inr [OF this]
  have r: "r = map (stored sf N) [0..<unat N] @ drop (unat N) B"
    and l: "0 < N \<longrightarrow> unat N \<le> length B"
    and a: "\<forall>j. unat (0 :: u32) \<le> j \<and> j < unat N \<longrightarrow> (\<exists>v. shiftedValue_at sf N (of_nat j) = Inr v)"
    by simp_all
  have len: "unat N \<le> length B"
    using l by (cases "N = 0") (simp_all add: word_greater_zero_iff)
  then have lr: "length r = length B" by (simp add: r)
  have dr: "drop (unat N) r = drop (unat N) B" by (simp add: r)
  have ok: "ramp_loop sf N 0 X = Inr (map (stored sf N) [0..<unat N] @ drop (unat N) X)"
    if "length X = length B" for X
    using ramp_loop_ok [of 0 N X sf] a len that by simp
  have 1: "GenerateRampWave r N = Inr r"
    using ok [OF lr] dr by (simp add: g r)
  have 2: "\<exists>r'. GenerateRampWave B' N = Inr r' \<and> take (unat N) r' = take (unat N) r"
    if "length B' = length B" for B'
    using ok [OF that] by (simp add: g r)
  from 1 2 lr dr show ?thesis by blast
qed

theorem generate_idempotent_witness:
  "GenerateRampWave [7, 7, 7, 9] 3 = Inr [0, 0xFFFC0000, 0, 9] \<and>
   GenerateRampWave [0, 0xFFFC0000, 0, 9] 3 = Inr [0, 0xFFFC0000, 0, 9] \<and>
   length [0, 0xFFFC0000, 0, 9 :: u32] = length [7, 7, 7, 9 :: u32] \<and>
   length [1, 2, 3, 4 :: u32] = length [7, 7, 7, 9 :: u32] \<and>
   (\<exists>r'. GenerateRampWave [1, 2, 3, 4] 3 = Inr r' \<and>
      take (unat (3 :: u32)) r' = take (unat (3 :: u32)) [0, 0xFFFC0000, 0, 9])"
proof -
  have g: "GenerateRampWave [7, 7, 7, 9] 3 = Inr [0, 0xFFFC0000, 0, 9]"
    by code_simp
  have l: "length [1, 2, 3, 4 :: u32] = length [7, 7, 7, 9 :: u32]"
    by simp
  from generate_idempotent [OF g] g l show ?thesis
    by (intro conjI) simp_all
qed


end
